theory Spec2Isabelle
  imports Main
begin

section \<open>Python values used by the parser\<close>

text \<open>
  A Python string is a sequence of Unicode code points; a character is a string of
  length one. Code points are natural numbers here, so that \<open>chr\<close> is the conversion
  from \<open>int\<close> and no input string is excluded. \<open>str\<close> writes a string literal.
\<close>

type_synonym pychar = nat
type_synonym pystring = "pychar list"

definition str :: "string \<Rightarrow> pystring" where
  "str s = map of_char s"

datatype error = UriSyntaxError | ValueError | IndexError | OverflowError

subsection \<open>\<open>str.find\<close>, \<open>str.index\<close>, \<open>str.split\<close>, \<open>str.count\<close> with a one-character argument\<close>

fun py_find :: "pychar \<Rightarrow> pystring \<Rightarrow> int" where
  "py_find sep [] = - 1"
| "py_find sep (c # cs) =
     (if c = sep then 0
      else (let r = py_find sep cs in if r = - 1 then - 1 else r + 1))"

definition py_index :: "pychar \<Rightarrow> pystring \<Rightarrow> error + int" where
  "py_index sep s = (if py_find sep s = - 1 then Inl ValueError else Inr (py_find sep s))"

text \<open>\<open>s.split(sep, 1)\<close>: a list of one string when \<open>sep\<close> does not occur, of two otherwise.\<close>

fun split_max1 :: "pychar \<Rightarrow> pystring \<Rightarrow> pystring list" where
  "split_max1 sep [] = [[]]"
| "split_max1 sep (c # cs) =
     (if c = sep then [[], cs]
      else (case split_max1 sep cs of
              [] \<Rightarrow> [[c]]
            | t # ts \<Rightarrow> (c # t) # ts))"

text \<open>\<open>s.split(sep)\<close>: every occurrence of \<open>sep\<close> separates; the empty string gives \<open>['']\<close>.\<close>

fun split_all :: "pychar \<Rightarrow> pystring \<Rightarrow> pystring list" where
  "split_all sep [] = [[]]"
| "split_all sep (c # cs) =
     (if c = sep then [] # split_all sep cs
      else (case split_all sep cs of
              [] \<Rightarrow> [[c]]
            | t # ts \<Rightarrow> (c # t) # ts))"

definition py_count :: "pychar \<Rightarrow> pystring \<Rightarrow> nat" where
  "py_count sep s = length (filter (\<lambda>c. c = sep) s)"

subsection \<open>\<open>int(s, 16)\<close> and \<open>chr\<close>\<close>

text \<open>
  \<open>int\<close> first maps the string to ASCII: a code point below 127 stays, any other one
  becomes a blank when it is Unicode white space, the digit \<open>0\<close>..\<open>9\<close> when it is a Unicode
  decimal digit, and \<open>?\<close> otherwise. Which code points from 127 on are white space or
  decimal digits is a table of the interpreter (its Unicode version); it is the parameter
  \<open>U\<close> of everything below and is only ever asked about code points from 127 on.
\<close>

datatype uclass = USpace | UDecimal nat | UOther

type_synonym unicode = "pychar \<Rightarrow> uclass"

definition to_ascii :: "unicode \<Rightarrow> pychar \<Rightarrow> pychar" where
  "to_ascii U c =
     (if c < 127 then c
      else (case U c of USpace \<Rightarrow> 32 | UDecimal d \<Rightarrow> 48 + d | UOther \<Rightarrow> 63))"

text \<open>The C-locale white space that \<open>int\<close> skips around the number: TAB..CR and the blank.\<close>

definition py_isspace :: "pychar \<Rightarrow> bool" where
  "py_isspace c = ((9 \<le> c \<and> c \<le> 13) \<or> c = 32)"

text \<open>The value of a digit in base 16; letters from \<open>g\<close> on are digits of larger bases only.\<close>

definition digit_value :: "pychar \<Rightarrow> nat option" where
  "digit_value c =
     (if 48 \<le> c \<and> c \<le> 57 then Some (c - 48)
      else if 97 \<le> c \<and> c \<le> 102 then Some (c - 87)
      else if 65 \<le> c \<and> c \<le> 70 then Some (c - 55)
      else None)"

text \<open>
  The digit loop: digits and single underscores between them, read until the first other
  character. \<open>prev\<close> is the character read last (0 at the start), \<open>n\<close> the number of digits
  read so far. The result is the value, the number of digits and the unread rest.
\<close>

fun scan_digits :: "int \<Rightarrow> nat \<Rightarrow> pychar \<Rightarrow> pystring \<Rightarrow> (int \<times> nat \<times> pystring) option" where
  "scan_digits acc n prev [] = (if prev = 95 then None else Some (acc, n, []))"
| "scan_digits acc n prev (c # cs) =
     (case digit_value c of
        Some d \<Rightarrow> scan_digits (16 * acc + int d) (Suc n) c cs
      | None \<Rightarrow>
          if c = 95 then (if prev = 95 then None else scan_digits acc n c cs)
          else if prev = 95 then None
          else Some (acc, n, c # cs))"

text \<open>
  \<open>int(x, 16)\<close> on a string: white space, an optional sign, an optional prefix \<open>0x\<close> or \<open>0X\<close>
  (one underscore may follow it), at least one digit, white space, end of the string.
  \<open>None\<close> is Python's \<open>ValueError\<close>.
\<close>

definition py_int16 :: "unicode \<Rightarrow> pystring \<Rightarrow> int option" where
  "py_int16 U x =
     (let s1 = dropWhile py_isspace (map (to_ascii U) x);
          sign = (case s1 of [] \<Rightarrow> 1 | c # cs \<Rightarrow> if c = 45 then - 1 else (1::int));
          s2 = (case s1 of [] \<Rightarrow> [] | c # cs \<Rightarrow> if c = 43 \<or> c = 45 then cs else s1);
          s3 = (case s2 of
                  a # b # cs \<Rightarrow>
                    if a = 48 \<and> (b = 120 \<or> b = 88)
                    then (case cs of [] \<Rightarrow> [] | c # ds \<Rightarrow> if c = 95 then ds else cs)
                    else s2
                | _ \<Rightarrow> s2)
      in case s3 of
           [] \<Rightarrow> None
         | c # cs \<Rightarrow>
             if c = 95 then None
             else (case scan_digits 0 0 0 s3 of
                     None \<Rightarrow> None
                   | Some (v, n, rest) \<Rightarrow>
                       if n = 0 then None
                       else if dropWhile py_isspace rest = [] then Some (sign * v)
                       else None))"

text \<open>
  \<open>chr(i)\<close> takes its argument as a C \<open>int\<close> of 32 bits: outside it the conversion raises
  \<open>OverflowError\<close>, and inside it \<open>chr\<close> raises \<open>ValueError\<close> outside \<open>range(0x110000)\<close>.
\<close>

definition py_chr :: "int \<Rightarrow> error + pychar" where
  "py_chr i =
     (if i < - 2147483648 \<or> 2147483647 < i then Inl OverflowError
      else if 0 \<le> i \<and> i < 1114112 then Inr (nat i)
      else Inl ValueError)"

text \<open>
  \<open>d[k] = v\<close> on a dictionary, which keeps insertion order: an existing key keeps its
  place and gets the new value, a new key goes to the end.
\<close>

fun dict_setitem :: "('k \<times> 'v) list \<Rightarrow> 'k \<Rightarrow> 'v \<Rightarrow> ('k \<times> 'v) list" where
  "dict_setitem [] k v = [(k, v)]"
| "dict_setitem (p # ps) k v = (if fst p = k then (k, v) # ps else p # dict_setitem ps k v)"

section \<open>The parser object\<close>

record UriParser =
  uri_content :: pystring
  path :: pystring
  fragment :: pystring
  query :: pystring
  query_params :: "(pystring \<times> pystring) list"
  iter :: nat

text \<open>A raised exception leaves the object as it was at that moment: the error carries it.\<close>

type_synonym 'a result = "(error \<times> UriParser) + 'a"

definition reserved_chars :: "pychar list" where
  "reserved_chars = map of_char
     [CHR '':'', CHR ''/'', CHR ''?'', CHR ''#'', CHR ''['', CHR '']'', CHR ''@'',
      CHR ''!'', CHR ''$'', CHR ''&'', CHR 0x27, CHR ''('', CHR '')'', CHR ''*'',
      CHR '','', CHR '';'', CHR ''='']"

definition init :: "pystring \<Rightarrow> UriParser" where
  "init content =
     \<lparr>uri_content = content, path = [], fragment = [], query = [], query_params = [], iter = 0\<rparr>"

definition get_path :: "UriParser \<Rightarrow> pystring" where
  "get_path self = path self"

definition get_fragment :: "UriParser \<Rightarrow> pystring" where
  "get_fragment self = fragment self"

definition get_query_params :: "UriParser \<Rightarrow> (pystring \<times> pystring) list" where
  "get_query_params self = query_params self"

text \<open>
  \<open>_get_next_char\<close>: \<open>None\<close> at the end of the string, else the character under the cursor,
  which moves on. Reading \<open>string[self._iter - 1]\<close> beyond the string is \<open>IndexError\<close>.
\<close>

definition get_next_char :: "UriParser \<Rightarrow> pystring \<Rightarrow> (pychar option \<times> UriParser) result" where
  "get_next_char self string =
     (if iter self = length string then Inr (None, self)
      else (let self' = self\<lparr>iter := iter self + 1\<rparr>
            in if iter self' - 1 < length string
               then Inr (Some (string ! (iter self' - 1)), self')
               else Inl (IndexError, self')))"

text \<open>\<open>_decode\<close>: only the \<open>ValueError\<close> of \<open>int\<close> is caught; \<open>chr\<close> is called outside the \<open>try\<close>.\<close>

definition decode :: "unicode \<Rightarrow> pystring \<Rightarrow> error + pychar" where
  "decode U hex_num =
     (case py_int16 U hex_num of
        None \<Rightarrow> Inl UriSyntaxError
      | Some v \<Rightarrow> py_chr v)"

section \<open>The decoders\<close>

text \<open>
  The \<open>while\<close> loop of \<open>_parse_path\<close>. Each round starts with the read of the next
  character (the source reads once before the loop and once at the end of its body).
  \<open>self._path\<close> is the raw path during the whole loop.
\<close>

function parse_path_loop :: "unicode \<Rightarrow> pystring \<Rightarrow> UriParser \<Rightarrow> (pystring \<times> UriParser) result" where
  "parse_path_loop U decoded_path self =
     (case get_next_char self (path self) of
        Inl e \<Rightarrow> Inl e
      | Inr (None, s1) \<Rightarrow> Inr (decoded_path, s1)
      | Inr (Some next_char, s1) \<Rightarrow>
          if next_char = of_char CHR ''%'' then
            (case get_next_char s1 (path s1) of
               Inl e \<Rightarrow> Inl e
             | Inr (first_hex_digit, s2) \<Rightarrow>
                 (case get_next_char s2 (path s2) of
                    Inl e \<Rightarrow> Inl e
                  | Inr (second_hex_digit, s3) \<Rightarrow>
                      (case first_hex_digit of
                         None \<Rightarrow> Inl (UriSyntaxError, s3)
                       | Some a \<Rightarrow>
                           (case second_hex_digit of
                              None \<Rightarrow> Inl (UriSyntaxError, s3)
                            | Some b \<Rightarrow>
                                (case decode U [a, b] of
                                   Inl e \<Rightarrow> Inl (e, s3)
                                 | Inr c \<Rightarrow> parse_path_loop U (decoded_path @ [c]) s3)))))
          else if next_char \<in> set reserved_chars
                  \<and> next_char \<notin> set [of_char CHR ''/'', of_char CHR '':'']
          then Inl (UriSyntaxError, s1)
          else parse_path_loop U (decoded_path @ [next_char]) s1)"
  by pat_completeness auto

termination parse_path_loop
proof (relation "measure (\<lambda>(U, d, self). length (path self) - iter self)", goal_cases)
  case 1
  show ?case by simp
next
  case (2 U decoded_path self x2 x1 s1 next_char x2a x1a s2 x2b x1b s3 a b c)
  then have "get_next_char self (path self) = Inr (Some next_char, s1)"
    and "get_next_char s1 (path s1) = Inr (x1a, s2)"
    and "get_next_char s2 (path s2) = Inr (x1b, s3)"
    by simp_all
  then have "iter self < length (path self)" "iter self < iter s3" "path s3 = path self"
    by (auto simp: get_next_char_def Let_def split: if_splits)
  then show ?case by simp
next
  case (3 U decoded_path self x2 x1 s1 next_char)
  then have "get_next_char self (path self) = Inr (Some next_char, s1)"
    by simp
  then show ?case
    by (auto simp: get_next_char_def Let_def split: if_splits)
qed

definition parse_path :: "unicode \<Rightarrow> UriParser \<Rightarrow> UriParser result" where
  "parse_path U self =
     (case parse_path_loop U [] (self\<lparr>iter := 0\<rparr>) of
        Inl e \<Rightarrow> Inl e
      | Inr (decoded_path, s1) \<Rightarrow> Inr (s1\<lparr>path := decoded_path\<rparr>))"

text \<open>The loop of \<open>_parse_fragment\<close>: the same, over \<open>self._fragment\<close>, with no character let through.\<close>

function parse_fragment_loop :: "unicode \<Rightarrow> pystring \<Rightarrow> UriParser \<Rightarrow> (pystring \<times> UriParser) result" where
  "parse_fragment_loop U decoded_fragment self =
     (case get_next_char self (fragment self) of
        Inl e \<Rightarrow> Inl e
      | Inr (None, s1) \<Rightarrow> Inr (decoded_fragment, s1)
      | Inr (Some next_char, s1) \<Rightarrow>
          if next_char = of_char CHR ''%'' then
            (case get_next_char s1 (fragment s1) of
               Inl e \<Rightarrow> Inl e
             | Inr (first_hex_digit, s2) \<Rightarrow>
                 (case get_next_char s2 (fragment s2) of
                    Inl e \<Rightarrow> Inl e
                  | Inr (second_hex_digit, s3) \<Rightarrow>
                      (case first_hex_digit of
                         None \<Rightarrow> Inl (UriSyntaxError, s3)
                       | Some a \<Rightarrow>
                           (case second_hex_digit of
                              None \<Rightarrow> Inl (UriSyntaxError, s3)
                            | Some b \<Rightarrow>
                                (case decode U [a, b] of
                                   Inl e \<Rightarrow> Inl (e, s3)
                                 | Inr c \<Rightarrow> parse_fragment_loop U (decoded_fragment @ [c]) s3)))))
          else if next_char \<in> set reserved_chars
          then Inl (UriSyntaxError, s1)
          else parse_fragment_loop U (decoded_fragment @ [next_char]) s1)"
  by pat_completeness auto

termination parse_fragment_loop
proof (relation "measure (\<lambda>(U, d, self). length (fragment self) - iter self)", goal_cases)
  case 1
  show ?case by simp
next
  case (2 U decoded_fragment self x2 x1 s1 next_char x2a x1a s2 x2b x1b s3 a b c)
  then have "get_next_char self (fragment self) = Inr (Some next_char, s1)"
    and "get_next_char s1 (fragment s1) = Inr (x1a, s2)"
    and "get_next_char s2 (fragment s2) = Inr (x1b, s3)"
    by simp_all
  then have "iter self < length (fragment self)" "iter self < iter s3" "fragment s3 = fragment self"
    by (auto simp: get_next_char_def Let_def split: if_splits)
  then show ?case by simp
next
  case (3 U decoded_fragment self x2 x1 s1 next_char)
  then have "get_next_char self (fragment self) = Inr (Some next_char, s1)"
    by simp
  then show ?case
    by (auto simp: get_next_char_def Let_def split: if_splits)
qed

definition parse_fragment :: "unicode \<Rightarrow> UriParser \<Rightarrow> UriParser result" where
  "parse_fragment U self =
     (case parse_fragment_loop U [] (self\<lparr>iter := 0\<rparr>) of
        Inl e \<Rightarrow> Inl e
      | Inr (decoded_fragment, s1) \<Rightarrow> Inr (s1\<lparr>fragment := decoded_fragment\<rparr>))"

text \<open>The loop of \<open>_decode_all\<close>: over the argument \<open>string\<close>, with no check of the characters.\<close>

function decode_all_loop :: "unicode \<Rightarrow> pystring \<Rightarrow> pystring \<Rightarrow> UriParser \<Rightarrow> (pystring \<times> UriParser) result" where
  "decode_all_loop U string outStr self =
     (case get_next_char self string of
        Inl e \<Rightarrow> Inl e
      | Inr (None, s1) \<Rightarrow> Inr (outStr, s1)
      | Inr (Some next_char, s1) \<Rightarrow>
          if next_char = of_char CHR ''%'' then
            (case get_next_char s1 string of
               Inl e \<Rightarrow> Inl e
             | Inr (first_hex_digit, s2) \<Rightarrow>
                 (case get_next_char s2 string of
                    Inl e \<Rightarrow> Inl e
                  | Inr (second_hex_digit, s3) \<Rightarrow>
                      (case first_hex_digit of
                         None \<Rightarrow> Inl (UriSyntaxError, s3)
                       | Some a \<Rightarrow>
                           (case second_hex_digit of
                              None \<Rightarrow> Inl (UriSyntaxError, s3)
                            | Some b \<Rightarrow>
                                (case decode U [a, b] of
                                   Inl e \<Rightarrow> Inl (e, s3)
                                 | Inr c \<Rightarrow> decode_all_loop U string (outStr @ [c]) s3)))))
          else decode_all_loop U string (outStr @ [next_char]) s1)"
  by pat_completeness auto

termination decode_all_loop
proof (relation "measure (\<lambda>(U, string, d, self). length string - iter self)", goal_cases)
  case 1
  show ?case by simp
next
  case (2 U string outStr self x2 x1 s1 next_char x2a x1a s2 x2b x1b s3 a b c)
  then have "get_next_char self string = Inr (Some next_char, s1)"
    and "get_next_char s1 string = Inr (x1a, s2)"
    and "get_next_char s2 string = Inr (x1b, s3)"
    by simp_all
  then have "iter self < length string" "iter self < iter s3" "(\<lambda>_. string) s3 = (\<lambda>_. string) self"
    by (auto simp: get_next_char_def Let_def split: if_splits)
  then show ?case by simp
next
  case (3 U string outStr self x2 x1 s1 next_char)
  then have "get_next_char self string = Inr (Some next_char, s1)"
    by simp
  then show ?case
    by (auto simp: get_next_char_def Let_def split: if_splits)
qed

definition decode_all :: "unicode \<Rightarrow> UriParser \<Rightarrow> pystring \<Rightarrow> (pystring \<times> UriParser) result" where
  "decode_all U self string = decode_all_loop U string [] (self\<lparr>iter := 0\<rparr>)"

text \<open>
  The \<open>for\<close> loop of \<open>_parse_query\<close> over the tokens. A token with one \<open>=\<close> splits in two;
  the unpacking of any other list would be a \<open>ValueError\<close>.
\<close>

fun parse_query_tokens :: "unicode \<Rightarrow> pystring list \<Rightarrow> UriParser \<Rightarrow> UriParser result" where
  "parse_query_tokens U [] self = Inr self"
| "parse_query_tokens U (token # tokens) self =
     (if py_count (of_char CHR ''='') token \<noteq> 1 then Inl (UriSyntaxError, self)
      else (case split_max1 (of_char CHR ''='') token of
              [param, val] \<Rightarrow>
                (case decode_all U self param of
                   Inl e \<Rightarrow> Inl e
                 | Inr (param', s1) \<Rightarrow>
                     (case decode_all U s1 val of
                        Inl e \<Rightarrow> Inl e
                      | Inr (val', s2) \<Rightarrow>
                          parse_query_tokens U tokens
                            (s2\<lparr>query_params := dict_setitem (query_params s2) param' val'\<rparr>)))
            | _ \<Rightarrow> Inl (ValueError, self)))"

definition parse_query :: "unicode \<Rightarrow> UriParser \<Rightarrow> UriParser result" where
  "parse_query U self =
     (if query self = [] then Inr self
      else if list_ex (\<lambda>c. c \<in> set reserved_chars
                            \<and> c \<notin> set [of_char CHR ''&'', of_char CHR ''=''])
                (query self)
      then Inl (UriSyntaxError, self)
      else parse_query_tokens U (split_all (of_char CHR ''&'') (query self)) self)"

section \<open>The splitter and \<open>parse\<close>\<close>

text \<open>
  \<open>_split_uri\<close>. \<open>tokens[1]\<close> of a one-element list would be an \<open>IndexError\<close>, the unpacking
  of a one-element list a \<open>ValueError\<close>.
\<close>

definition split_uri :: "UriParser \<Rightarrow> UriParser result" where
  "split_uri self =
     (let u = uri_content self; qm = of_char CHR ''?''; hash = of_char CHR ''#'' in
      if py_find qm u \<noteq> - 1 then
        if py_find hash u \<noteq> - 1 then
          (case py_index qm u of
             Inl e \<Rightarrow> Inl (e, self)
           | Inr iq \<Rightarrow>
               (case py_index hash u of
                  Inl e \<Rightarrow> Inl (e, self)
                | Inr ih \<Rightarrow>
                    if iq > ih then Inl (UriSyntaxError, self)
                    else (case split_max1 qm u of
                            t0 # t1 # ts \<Rightarrow>
                              (let s1 = self\<lparr>path := t0\<rparr>
                               in case split_max1 hash t1 of
                                    [q, f] \<Rightarrow> Inr (s1\<lparr>query := q, fragment := f\<rparr>)
                                  | _ \<Rightarrow> Inl (ValueError, s1))
                          | _ \<Rightarrow> Inl (IndexError, self))))
        else (case split_max1 qm u of
                [p, q] \<Rightarrow> Inr (self\<lparr>path := p, query := q\<rparr>)
              | _ \<Rightarrow> Inl (ValueError, self))
      else if py_find hash u \<noteq> - 1 then
        (case split_max1 hash u of
           [p, f] \<Rightarrow> Inr (self\<lparr>path := p, fragment := f\<rparr>)
         | _ \<Rightarrow> Inl (ValueError, self))
      else Inr (self\<lparr>path := u\<rparr>))"

definition parse :: "unicode \<Rightarrow> UriParser \<Rightarrow> UriParser result" where
  "parse U self =
     (case split_uri self of
        Inl e \<Rightarrow> Inl e
      | Inr s1 \<Rightarrow>
          (case parse_path U s1 of
             Inl e \<Rightarrow> Inl e
           | Inr s2 \<Rightarrow>
               (case parse_fragment U s2 of
                  Inl e \<Rightarrow> Inl e
                | Inr s3 \<Rightarrow> parse_query U s3)))"

section \<open>Auxiliary definitions for the proofs\<close>

text \<open>
  The three loops as one function of the unread rest of the string and of the test that
  rejects a literal character. The loops are proved equal to it below; the claims are
  stated about the parser itself.
\<close>

fun scan :: "unicode \<Rightarrow> (pychar \<Rightarrow> bool) \<Rightarrow> pystring \<Rightarrow> error + pystring" where
  "scan U bad [] = Inr []"
| "scan U bad (c # cs) =
     (if c = 37 then
        (case cs of
           a # b # rest \<Rightarrow>
             (case decode U [a, b] of
                Inl e \<Rightarrow> Inl e
              | Inr d \<Rightarrow> (case scan U bad rest of Inl e \<Rightarrow> Inl e | Inr ds \<Rightarrow> Inr (d # ds)))
         | _ \<Rightarrow> Inl UriSyntaxError)
      else if bad c then Inl UriSyntaxError
      else (case scan U bad cs of Inl e \<Rightarrow> Inl e | Inr ds \<Rightarrow> Inr (c # ds)))"

definition bad_path :: "pychar \<Rightarrow> bool" where
  "bad_path c = (c \<in> set reserved_chars \<and> c \<noteq> 47 \<and> c \<noteq> 58)"

definition bad_fragment :: "pychar \<Rightarrow> bool" where
  "bad_fragment c = (c \<in> set reserved_chars)"

definition bad_none :: "pychar \<Rightarrow> bool" where
  "bad_none c = False"

text \<open>
  A table for the concrete examples, whose strings are ASCII: no code point from 127 on is
  white space or a digit. The examples do not depend on the table.
\<close>

definition ascii :: unicode where
  "ascii c = UOther"

text \<open>
  The splitter as the specification words it: the first \<open>?\<close> and the first \<open>#\<close> are
  found by their indices; \<open>None\<close> is the failure when the \<open>?\<close> comes after the \<open>#\<close>.
\<close>

definition first_index :: "pychar \<Rightarrow> pystring \<Rightarrow> nat" where
  "first_index sep s = length (takeWhile (\<lambda>c. c \<noteq> sep) s)"

definition spec_split :: "pystring \<Rightarrow> (pystring \<times> pystring \<times> pystring) option" where
  "spec_split u =
     (let iq = first_index 63 u; ih = first_index 35 u in
      if 63 \<in> set u \<and> 35 \<in> set u then
        (if iq > ih then None
         else Some (take iq u, take (ih - iq - 1) (drop (iq + 1) u), drop (ih + 1) u))
      else if 63 \<in> set u then Some (take iq u, drop (iq + 1) u, [])
      else if 35 \<in> set u then Some (take ih u, [], drop (ih + 1) u)
      else Some (u, [], []))"

text \<open>What \<open>_decode_all\<close> returns for a string, or the exception it raises.\<close>

definition percent_decode :: "unicode \<Rightarrow> pystring \<Rightarrow> error + pystring" where
  "percent_decode U x = map_sum fst fst (decode_all U (init []) x)"

text \<open>
  The query loop on the dictionary alone: the pair of one token, and the dictionary after
  a list of tokens, or the error of the first token that fails with the dictionary left
  at that moment.
\<close>

definition token_pair :: "unicode \<Rightarrow> pystring \<Rightarrow> error + (pystring \<times> pystring)" where
  "token_pair U token =
     (if py_count 61 token \<noteq> 1 then Inl UriSyntaxError
      else (case split_max1 61 token of
              [k, v] \<Rightarrow>
                (case percent_decode U k of
                   Inl e \<Rightarrow> Inl e
                 | Inr k' \<Rightarrow>
                     (case percent_decode U v of
                        Inl e \<Rightarrow> Inl e
                      | Inr v' \<Rightarrow> Inr (k', v')))
            | _ \<Rightarrow> Inl ValueError))"

fun tokens_result :: "unicode \<Rightarrow> pystring list \<Rightarrow> (pystring \<times> pystring) list
    \<Rightarrow> (error \<times> (pystring \<times> pystring) list) + (pystring \<times> pystring) list" where
  "tokens_result U [] d = Inr d"
| "tokens_result U (t # ts) d =
     (case token_pair U t of
        Inl e \<Rightarrow> Inl (e, d)
      | Inr (k, v) \<Rightarrow> tokens_result U ts (dict_setitem d k v))"

text \<open>The elements of a list in the order of their first occurrence.\<close>

primrec first_occ :: "'a list \<Rightarrow> 'a list" where
  "first_occ [] = []"
| "first_occ (x # xs) = x # filter (\<lambda>y. y \<noteq> x) (first_occ xs)"

text \<open>
  What a caller can observe of a run of \<open>parse\<close>: the accessors on the object it leaves,
  with the exception when one was raised. \<open>parse_view\<close> computes the same from the input
  string alone, stage by stage.
\<close>

type_synonym observed = "pystring \<times> pystring \<times> (pystring \<times> pystring) list"

definition view :: "UriParser result \<Rightarrow> (error \<times> observed) + observed" where
  "view r =
     map_sum (\<lambda>(e, s). (e, get_path s, get_fragment s, get_query_params s))
             (\<lambda>s. (get_path s, get_fragment s, get_query_params s)) r"

definition bad_query :: "pychar \<Rightarrow> bool" where
  "bad_query c = (c \<in> set reserved_chars \<and> c \<noteq> 38 \<and> c \<noteq> 61)"

definition query_view :: "unicode \<Rightarrow> pystring \<Rightarrow> pystring \<Rightarrow> pystring
    \<Rightarrow> (error \<times> observed) + observed" where
  "query_view U p' f' q =
     (if q = [] then Inr (p', f', [])
      else if list_ex bad_query q then Inl (UriSyntaxError, p', f', [])
      else (case tokens_result U (split_all 38 q) [] of
              Inl (e, d) \<Rightarrow> Inl (e, p', f', d)
            | Inr d \<Rightarrow> Inr (p', f', d)))"

definition parse_view :: "unicode \<Rightarrow> pystring \<Rightarrow> (error \<times> observed) + observed" where
  "parse_view U u =
     (case spec_split u of
        None \<Rightarrow> Inl (UriSyntaxError, [], [], [])
      | Some (p, q, f) \<Rightarrow>
          (case scan U bad_path p of
             Inl e \<Rightarrow> Inl (e, p, f, [])
           | Inr p' \<Rightarrow>
               (case scan U bad_fragment f of
                  Inl e \<Rightarrow> Inl (e, p', f, [])
                | Inr f' \<Rightarrow> query_view U p' f' q)))"

text \<open>
  \<open>escaped U raw c\<close>: somewhere in \<open>raw\<close> a \<open>%\<close> is followed by two characters that
  \<open>_decode\<close> turns into \<open>c\<close>.
\<close>

fun escaped :: "unicode \<Rightarrow> pystring \<Rightarrow> pychar \<Rightarrow> bool" where
  "escaped U [] c = False"
| "escaped U (x # xs) c =
     ((x = 37 \<and> (case xs of a # b # rest \<Rightarrow> decode U [a, b] = Inr c | _ \<Rightarrow> False))
      \<or> escaped U xs c)"

text \<open>The dictionary after the assignments \<open>d[k] = v\<close> for a list of pairs, in their order.\<close>

definition assign_all :: "('k \<times> 'v) list \<Rightarrow> ('k \<times> 'v) list \<Rightarrow> ('k \<times> 'v) list" where
  "assign_all d kvs = foldl (\<lambda>d kv. dict_setitem d (fst kv) (snd kv)) d kvs"

text \<open>The hexadecimal digit of a value below 16, as an upper-case and as a lower-case character.\<close>

definition hex_upper :: "nat \<Rightarrow> pychar" where
  "hex_upper d = (if d < 10 then 48 + d else 55 + d)"

definition hex_lower :: "nat \<Rightarrow> pychar" where
  "hex_lower d = (if d < 10 then 48 + d else 87 + d)"

section \<open>The loops as scans of the rest of the string\<close>

declare parse_path_loop.simps [simp del]
declare parse_fragment_loop.simps [simp del]
declare decode_all_loop.simps [simp del]

lemma reserved_chars_eq:
  "reserved_chars = [58, 47, 63, 35, 91, 93, 64, 33, 36, 38, 39, 40, 41, 42, 44, 59, 61]"
  by (simp add: reserved_chars_def)

lemma drop_iter_Cons: "i < length s \<Longrightarrow> drop i s = s ! i # drop (Suc i) s"
  by (simp add: Cons_nth_drop_Suc)

lemma drop_eq_ConsD: "drop i s = c # cs \<Longrightarrow> i < length s \<and> drop (Suc i) s = cs"
  by (metis drop_Suc drop_all list.distinct(1) list.sel(3) not_le tl_drop)

lemma get_next_char_eq:
  "iter self \<le> length string \<Longrightarrow>
   get_next_char self string =
     (case drop (iter self) string of
        [] \<Rightarrow> Inr (None, self)
      | c # cs \<Rightarrow> Inr (Some c, self\<lparr>iter := Suc (iter self)\<rparr>))"
  by (cases "iter self = length string")
     (auto simp: get_next_char_def Let_def drop_iter_Cons)

lemma parse_path_loop_step:
  assumes "iter self \<le> length (path self)"
  shows "parse_path_loop U acc self =
     (case drop (iter self) (path self) of
        [] \<Rightarrow> Inr (acc, self)
      | c # cs \<Rightarrow>
          if c = 37 then
            (case cs of
               [] \<Rightarrow> Inl (UriSyntaxError, self\<lparr>iter := Suc (iter self)\<rparr>)
             | a # cs' \<Rightarrow>
                (case cs' of
                   [] \<Rightarrow> Inl (UriSyntaxError, self\<lparr>iter := Suc (Suc (iter self))\<rparr>)
                 | b # rest \<Rightarrow>
                 (case decode U [a, b] of
                    Inl e \<Rightarrow> Inl (e, self\<lparr>iter := Suc (Suc (Suc (iter self)))\<rparr>)
                  | Inr d \<Rightarrow> parse_path_loop U (acc @ [d]) (self\<lparr>iter := Suc (Suc (Suc (iter self)))\<rparr>))))
          else if bad_path c then Inl (UriSyntaxError, self\<lparr>iter := Suc (iter self)\<rparr>)
          else parse_path_loop U (acc @ [c]) (self\<lparr>iter := Suc (iter self)\<rparr>))"
proof (cases "drop (iter self) (path self)")
  case Nil
  with assms show ?thesis
    by (subst parse_path_loop.simps) (simp add: get_next_char_eq)
next
  case (Cons c cs)
  note d1 = drop_eq_ConsD [OF Cons]
  show ?thesis
  proof (cases cs)
    case Nil
    with Cons d1 show ?thesis
      by (subst parse_path_loop.simps)
         (simp add: get_next_char_eq bad_path_def Suc_le_eq)
  next
    case c2: (Cons a cs')
    note d2 = drop_eq_ConsD [OF d1 [THEN conjunct2, unfolded c2]]
    show ?thesis
    proof (cases cs')
      case Nil
      with Cons c2 d1 d2 show ?thesis
        by (subst parse_path_loop.simps)
           (simp add: get_next_char_eq bad_path_def Suc_le_eq)
    next
      case c3: (Cons b rest)
      note d3 = drop_eq_ConsD [OF d2 [THEN conjunct2, unfolded c3]]
      with Cons c2 c3 d1 d2 show ?thesis
        by (subst parse_path_loop.simps)
           (simp add: get_next_char_eq bad_path_def Suc_le_eq split: sum.splits)
    qed
  qed
qed

lemma parse_path_loop_scan:
  "iter self \<le> length (path self) \<Longrightarrow>
   \<exists>n. parse_path_loop U acc self =
     (case scan U bad_path (drop (iter self) (path self)) of
        Inl e \<Rightarrow> Inl (e, self\<lparr>iter := n\<rparr>)
      | Inr ds \<Rightarrow> Inr (acc @ ds, self\<lparr>iter := length (path self)\<rparr>))"
proof (induction "length (path self) - iter self" arbitrary: self acc rule: less_induct)
  case less
  show ?case
  proof (cases "drop (iter self) (path self)")
    case Nil
    with less.prems have "iter self = length (path self)" by simp
    with Nil less.prems show ?thesis
      by (simp add: parse_path_loop_step)
  next
    case (Cons c cs)
    note d1 = drop_eq_ConsD [OF Cons]
    show ?thesis
    proof (cases "c = 37")
      case False
      let ?s = "self\<lparr>iter := Suc (iter self)\<rparr>"
      from d1 have "length (path ?s) - iter ?s < length (path self) - iter self"
        "iter ?s \<le> length (path ?s)" by auto
      from less.hyps [OF this, of "acc @ [c]"] obtain n where
        "parse_path_loop U (acc @ [c]) ?s =
          (case scan U bad_path cs of Inl e \<Rightarrow> Inl (e, ?s\<lparr>iter := n\<rparr>)
           | Inr ds \<Rightarrow> Inr ((acc @ [c]) @ ds, ?s\<lparr>iter := length (path ?s)\<rparr>))"
        using d1 by auto
      with False Cons less.prems show ?thesis
        by (auto simp: parse_path_loop_step split: sum.splits)
    next
      case True
      show ?thesis
      proof (cases cs)
        case Nil
        with True Cons less.prems show ?thesis
          by (auto simp: parse_path_loop_step)
      next
        case c2: (Cons a cs')
        note d2 = drop_eq_ConsD [OF d1 [THEN conjunct2, unfolded c2]]
        show ?thesis
        proof (cases cs')
          case Nil
          with True Cons c2 less.prems show ?thesis
            by (auto simp: parse_path_loop_step)
        next
          case c3: (Cons b rest)
          note d3 = drop_eq_ConsD [OF d2 [THEN conjunct2, unfolded c3]]
          let ?s = "self\<lparr>iter := Suc (Suc (Suc (iter self)))\<rparr>"
          from d1 d2 d3 have "length (path ?s) - iter ?s < length (path self) - iter self"
            "iter ?s \<le> length (path ?s)" by auto
          note ih = less.hyps [OF this]
          show ?thesis
          proof (cases "decode U [a, b]")
            case (Inl e)
            with True Cons c2 c3 less.prems show ?thesis
              by (auto simp: parse_path_loop_step)
          next
            case (Inr d)
            from ih [of "acc @ [d]"] d3 obtain n where
              "parse_path_loop U (acc @ [d]) ?s =
                (case scan U bad_path rest of Inl e \<Rightarrow> Inl (e, ?s\<lparr>iter := n\<rparr>)
                 | Inr ds \<Rightarrow> Inr ((acc @ [d]) @ ds, ?s\<lparr>iter := length (path ?s)\<rparr>))"
              by auto
            with Inr True Cons c2 c3 less.prems show ?thesis
              by (auto simp: parse_path_loop_step split: sum.splits)
          qed
        qed
      qed
    qed
  qed
qed

lemma parse_fragment_loop_step:
  assumes "iter self \<le> length (fragment self)"
  shows "parse_fragment_loop U acc self =
     (case drop (iter self) (fragment self) of
        [] \<Rightarrow> Inr (acc, self)
      | c # cs \<Rightarrow>
          if c = 37 then
            (case cs of
               [] \<Rightarrow> Inl (UriSyntaxError, self\<lparr>iter := Suc (iter self)\<rparr>)
             | a # cs' \<Rightarrow>
                (case cs' of
                   [] \<Rightarrow> Inl (UriSyntaxError, self\<lparr>iter := Suc (Suc (iter self))\<rparr>)
                 | b # rest \<Rightarrow>
                 (case decode U [a, b] of
                    Inl e \<Rightarrow> Inl (e, self\<lparr>iter := Suc (Suc (Suc (iter self)))\<rparr>)
                  | Inr d \<Rightarrow> parse_fragment_loop U (acc @ [d]) (self\<lparr>iter := Suc (Suc (Suc (iter self)))\<rparr>))))
          else if bad_fragment c then Inl (UriSyntaxError, self\<lparr>iter := Suc (iter self)\<rparr>)
          else parse_fragment_loop U (acc @ [c]) (self\<lparr>iter := Suc (iter self)\<rparr>))"
proof (cases "drop (iter self) (fragment self)")
  case Nil
  with assms show ?thesis
    by (subst parse_fragment_loop.simps) (simp add: get_next_char_eq)
next
  case (Cons c cs)
  note d1 = drop_eq_ConsD [OF Cons]
  show ?thesis
  proof (cases cs)
    case Nil
    with Cons d1 show ?thesis
      by (subst parse_fragment_loop.simps)
         (simp add: get_next_char_eq bad_fragment_def Suc_le_eq)
  next
    case c2: (Cons a cs')
    note d2 = drop_eq_ConsD [OF d1 [THEN conjunct2, unfolded c2]]
    show ?thesis
    proof (cases cs')
      case Nil
      with Cons c2 d1 d2 show ?thesis
        by (subst parse_fragment_loop.simps)
           (simp add: get_next_char_eq bad_fragment_def Suc_le_eq)
    next
      case c3: (Cons b rest)
      note d3 = drop_eq_ConsD [OF d2 [THEN conjunct2, unfolded c3]]
      with Cons c2 c3 d1 d2 show ?thesis
        by (subst parse_fragment_loop.simps)
           (simp add: get_next_char_eq bad_fragment_def Suc_le_eq split: sum.splits)
    qed
  qed
qed

lemma parse_fragment_loop_scan:
  "iter self \<le> length (fragment self) \<Longrightarrow>
   \<exists>n. parse_fragment_loop U acc self =
     (case scan U bad_fragment (drop (iter self) (fragment self)) of
        Inl e \<Rightarrow> Inl (e, self\<lparr>iter := n\<rparr>)
      | Inr ds \<Rightarrow> Inr (acc @ ds, self\<lparr>iter := length (fragment self)\<rparr>))"
proof (induction "length (fragment self) - iter self" arbitrary: self acc rule: less_induct)
  case less
  show ?case
  proof (cases "drop (iter self) (fragment self)")
    case Nil
    with less.prems have "iter self = length (fragment self)" by simp
    with Nil less.prems show ?thesis
      by (simp add: parse_fragment_loop_step)
  next
    case (Cons c cs)
    note d1 = drop_eq_ConsD [OF Cons]
    show ?thesis
    proof (cases "c = 37")
      case False
      let ?s = "self\<lparr>iter := Suc (iter self)\<rparr>"
      from d1 have "length (fragment ?s) - iter ?s < length (fragment self) - iter self"
        "iter ?s \<le> length (fragment ?s)" by auto
      from less.hyps [OF this, of "acc @ [c]"] obtain n where
        "parse_fragment_loop U (acc @ [c]) ?s =
          (case scan U bad_fragment cs of Inl e \<Rightarrow> Inl (e, ?s\<lparr>iter := n\<rparr>)
           | Inr ds \<Rightarrow> Inr ((acc @ [c]) @ ds, ?s\<lparr>iter := length (fragment ?s)\<rparr>))"
        using d1 by auto
      with False Cons less.prems show ?thesis
        by (auto simp: parse_fragment_loop_step split: sum.splits)
    next
      case True
      show ?thesis
      proof (cases cs)
        case Nil
        with True Cons less.prems show ?thesis
          by (auto simp: parse_fragment_loop_step)
      next
        case c2: (Cons a cs')
        note d2 = drop_eq_ConsD [OF d1 [THEN conjunct2, unfolded c2]]
        show ?thesis
        proof (cases cs')
          case Nil
          with True Cons c2 less.prems show ?thesis
            by (auto simp: parse_fragment_loop_step)
        next
          case c3: (Cons b rest)
          note d3 = drop_eq_ConsD [OF d2 [THEN conjunct2, unfolded c3]]
          let ?s = "self\<lparr>iter := Suc (Suc (Suc (iter self)))\<rparr>"
          from d1 d2 d3 have "length (fragment ?s) - iter ?s < length (fragment self) - iter self"
            "iter ?s \<le> length (fragment ?s)" by auto
          note ih = less.hyps [OF this]
          show ?thesis
          proof (cases "decode U [a, b]")
            case (Inl e)
            with True Cons c2 c3 less.prems show ?thesis
              by (auto simp: parse_fragment_loop_step)
          next
            case (Inr d)
            from ih [of "acc @ [d]"] d3 obtain n where
              "parse_fragment_loop U (acc @ [d]) ?s =
                (case scan U bad_fragment rest of Inl e \<Rightarrow> Inl (e, ?s\<lparr>iter := n\<rparr>)
                 | Inr ds \<Rightarrow> Inr ((acc @ [d]) @ ds, ?s\<lparr>iter := length (fragment ?s)\<rparr>))"
              by auto
            with Inr True Cons c2 c3 less.prems show ?thesis
              by (auto simp: parse_fragment_loop_step split: sum.splits)
          qed
        qed
      qed
    qed
  qed
qed

lemma decode_all_loop_step:
  assumes "iter self \<le> length (string)"
  shows "decode_all_loop U string acc self =
     (case drop (iter self) (string) of
        [] \<Rightarrow> Inr (acc, self)
      | c # cs \<Rightarrow>
          if c = 37 then
            (case cs of
               [] \<Rightarrow> Inl (UriSyntaxError, self\<lparr>iter := Suc (iter self)\<rparr>)
             | a # cs' \<Rightarrow>
                (case cs' of
                   [] \<Rightarrow> Inl (UriSyntaxError, self\<lparr>iter := Suc (Suc (iter self))\<rparr>)
                 | b # rest \<Rightarrow>
                 (case decode U [a, b] of
                    Inl e \<Rightarrow> Inl (e, self\<lparr>iter := Suc (Suc (Suc (iter self)))\<rparr>)
                  | Inr d \<Rightarrow> decode_all_loop U string (acc @ [d]) (self\<lparr>iter := Suc (Suc (Suc (iter self)))\<rparr>))))
          else if bad_none c then Inl (UriSyntaxError, self\<lparr>iter := Suc (iter self)\<rparr>)
          else decode_all_loop U string (acc @ [c]) (self\<lparr>iter := Suc (iter self)\<rparr>))"
proof (cases "drop (iter self) (string)")
  case Nil
  with assms show ?thesis
    by (subst decode_all_loop.simps) (simp add: get_next_char_eq)
next
  case (Cons c cs)
  note d1 = drop_eq_ConsD [OF Cons]
  show ?thesis
  proof (cases cs)
    case Nil
    with Cons d1 show ?thesis
      by (subst decode_all_loop.simps)
         (simp add: get_next_char_eq bad_none_def Suc_le_eq)
  next
    case c2: (Cons a cs')
    note d2 = drop_eq_ConsD [OF d1 [THEN conjunct2, unfolded c2]]
    show ?thesis
    proof (cases cs')
      case Nil
      with Cons c2 d1 d2 show ?thesis
        by (subst decode_all_loop.simps)
           (simp add: get_next_char_eq bad_none_def Suc_le_eq)
    next
      case c3: (Cons b rest)
      note d3 = drop_eq_ConsD [OF d2 [THEN conjunct2, unfolded c3]]
      with Cons c2 c3 d1 d2 show ?thesis
        by (subst decode_all_loop.simps)
           (simp add: get_next_char_eq bad_none_def Suc_le_eq split: sum.splits)
    qed
  qed
qed

lemma decode_all_loop_scan:
  "iter self \<le> length (string) \<Longrightarrow>
   \<exists>n. decode_all_loop U string acc self =
     (case scan U bad_none (drop (iter self) (string)) of
        Inl e \<Rightarrow> Inl (e, self\<lparr>iter := n\<rparr>)
      | Inr ds \<Rightarrow> Inr (acc @ ds, self\<lparr>iter := length (string)\<rparr>))"
proof (induction "length (string) - iter self" arbitrary: self acc rule: less_induct)
  case less
  show ?case
  proof (cases "drop (iter self) (string)")
    case Nil
    with less.prems have "iter self = length (string)" by simp
    with Nil less.prems show ?thesis
      by (simp add: decode_all_loop_step)
  next
    case (Cons c cs)
    note d1 = drop_eq_ConsD [OF Cons]
    show ?thesis
    proof (cases "c = 37")
      case False
      let ?s = "self\<lparr>iter := Suc (iter self)\<rparr>"
      from d1 have "length (string) - iter ?s < length (string) - iter self"
        "iter ?s \<le> length (string)" by auto
      from less.hyps [OF this, of "acc @ [c]"] obtain n where
        "decode_all_loop U string (acc @ [c]) ?s =
          (case scan U bad_none cs of Inl e \<Rightarrow> Inl (e, ?s\<lparr>iter := n\<rparr>)
           | Inr ds \<Rightarrow> Inr ((acc @ [c]) @ ds, ?s\<lparr>iter := length (string)\<rparr>))"
        using d1 by auto
      with False Cons less.prems show ?thesis
        by (auto simp: decode_all_loop_step split: sum.splits)
    next
      case True
      show ?thesis
      proof (cases cs)
        case Nil
        with True Cons less.prems show ?thesis
          by (auto simp: decode_all_loop_step)
      next
        case c2: (Cons a cs')
        note d2 = drop_eq_ConsD [OF d1 [THEN conjunct2, unfolded c2]]
        show ?thesis
        proof (cases cs')
          case Nil
          with True Cons c2 less.prems show ?thesis
            by (auto simp: decode_all_loop_step)
        next
          case c3: (Cons b rest)
          note d3 = drop_eq_ConsD [OF d2 [THEN conjunct2, unfolded c3]]
          let ?s = "self\<lparr>iter := Suc (Suc (Suc (iter self)))\<rparr>"
          from d1 d2 d3 have "length (string) - iter ?s < length (string) - iter self"
            "iter ?s \<le> length (string)" by auto
          note ih = less.hyps [OF this]
          show ?thesis
          proof (cases "decode U [a, b]")
            case (Inl e)
            with True Cons c2 c3 less.prems show ?thesis
              by (auto simp: decode_all_loop_step)
          next
            case (Inr d)
            from ih [of "acc @ [d]"] d3 obtain n where
              "decode_all_loop U string (acc @ [d]) ?s =
                (case scan U bad_none rest of Inl e \<Rightarrow> Inl (e, ?s\<lparr>iter := n\<rparr>)
                 | Inr ds \<Rightarrow> Inr ((acc @ [d]) @ ds, ?s\<lparr>iter := length (string)\<rparr>))"
              by auto
            with Inr True Cons c2 c3 less.prems show ?thesis
              by (auto simp: decode_all_loop_step split: sum.splits)
          qed
        qed
      qed
    qed
  qed
qed

section \<open>The stages as scans\<close>

lemma parse_path_scan:
  "\<exists>n. parse_path U self =
     (case scan U bad_path (path self) of
        Inl e \<Rightarrow> Inl (e, self\<lparr>iter := n\<rparr>)
      | Inr ds \<Rightarrow> Inr (self\<lparr>iter := length (path self), path := ds\<rparr>))"
proof -
  from parse_path_loop_scan [of "self\<lparr>iter := 0\<rparr>" U "[]"]
  show ?thesis
    by (cases "scan U bad_path (path self)") (auto simp: parse_path_def)
qed

lemma parse_fragment_scan:
  "\<exists>n. parse_fragment U self =
     (case scan U bad_fragment (fragment self) of
        Inl e \<Rightarrow> Inl (e, self\<lparr>iter := n\<rparr>)
      | Inr ds \<Rightarrow> Inr (self\<lparr>iter := length (fragment self), fragment := ds\<rparr>))"
proof -
  from parse_fragment_loop_scan [of "self\<lparr>iter := 0\<rparr>" U "[]"]
  show ?thesis
    by (cases "scan U bad_fragment (fragment self)") (auto simp: parse_fragment_def)
qed

lemma decode_all_scan:
  "\<exists>n. decode_all U self string =
     (case scan U bad_none string of
        Inl e \<Rightarrow> Inl (e, self\<lparr>iter := n\<rparr>)
      | Inr ds \<Rightarrow> Inr (ds, self\<lparr>iter := length string\<rparr>))"
proof -
  from decode_all_loop_scan [of "self\<lparr>iter := 0\<rparr>" string U "[]"]
  show ?thesis
    by (cases "scan U bad_none string") (auto simp: decode_all_def)
qed

section \<open>The splitter\<close>

lemma py_find_eq:
  "py_find sep s = (if sep \<in> set s then int (first_index sep s) else - 1)"
  by (induction s) (auto simp: first_index_def Let_def)

lemma split_max1_eq:
  "split_max1 sep s =
     (if sep \<in> set s then [take (first_index sep s) s, drop (first_index sep s + 1) s] else [s])"
  by (induction s) (auto simp: first_index_def)

lemma first_index_less: "sep \<in> set s \<Longrightarrow> first_index sep s < length s"
  by (induction s) (auto simp: first_index_def)

lemma nth_first_index: "sep \<in> set s \<Longrightarrow> s ! first_index sep s = sep"
  by (induction s) (auto simp: first_index_def)

lemma first_index_drop:
  "b \<in> set s \<Longrightarrow> a \<in> set s \<Longrightarrow> first_index a s < first_index b s \<Longrightarrow>
   b \<in> set (drop (first_index a s + 1) s)
     \<and> first_index b (drop (first_index a s + 1) s) = first_index b s - first_index a s - 1"
  by (induction s) (auto simp: first_index_def split: if_splits)

lemma split_uri_spec:
  "split_uri (init u) =
     (case spec_split u of
        None \<Rightarrow> Inl (UriSyntaxError, init u)
      | Some (p, q, f) \<Rightarrow> Inr ((init u)\<lparr>path := p, query := q, fragment := f\<rparr>))"
proof -
  have ne: "63 \<in> set u \<Longrightarrow> 35 \<in> set u \<Longrightarrow> first_index 63 u \<noteq> first_index 35 u"
    using nth_first_index [of 63 u] nth_first_index [of 35 u] by auto
  show ?thesis
  proof (cases "63 \<in> set u \<and> 35 \<in> set u \<and> \<not> first_index 63 u > first_index 35 u")
    case True
    then have lt: "first_index 63 u < first_index 35 u"
      using ne by auto
    from first_index_drop [of 35 u 63] True lt show ?thesis
      by (simp add: split_uri_def spec_split_def py_find_eq py_index_def split_max1_eq
          init_def Let_def)
  next
    case False
    then show ?thesis
      by (auto simp: split_uri_def spec_split_def py_find_eq py_index_def split_max1_eq
          init_def Let_def)
  qed
qed

section \<open>The query decoder\<close>

lemma percent_decode_scan: "percent_decode U x = scan U bad_none x"
  using decode_all_scan [of U "init []" x]
  by (cases "scan U bad_none x") (auto simp: percent_decode_def)

lemma decode_all_percent_decode:
  "\<exists>n. decode_all U self x =
     (case percent_decode U x of
        Inl e \<Rightarrow> Inl (e, self\<lparr>iter := n\<rparr>)
      | Inr ds \<Rightarrow> Inr (ds, self\<lparr>iter := n\<rparr>))"
  using decode_all_scan [of U self x]
  by (cases "scan U bad_none x") (auto simp: percent_decode_scan)

lemma py_count_pos: "(py_count sep s = 0) = (sep \<notin> set s)"
  by (induction s) (auto simp: py_count_def)

lemma parse_query_tokens_result:
  "\<exists>n. parse_query_tokens U tokens self =
     (case tokens_result U tokens (query_params self) of
        Inl (e, d) \<Rightarrow> Inl (e, self\<lparr>iter := n, query_params := d\<rparr>)
      | Inr d \<Rightarrow> Inr (self\<lparr>iter := n, query_params := d\<rparr>))"
proof (induction tokens arbitrary: self)
  case Nil
  show ?case
    by (rule exI [of _ "iter self"]) simp
next
  case (Cons t ts)
  show ?case
  proof (cases "py_count 61 t \<noteq> 1")
    case True
    then show ?thesis
      by (intro exI [of _ "iter self"]) (simp add: token_pair_def)
  next
    case False
    then have "61 \<in> set t"
      using py_count_pos [of 61 t] by auto
    then obtain k v where kv: "split_max1 61 t = [k, v]"
      by (simp add: split_max1_eq)
    obtain n1 where d1: "decode_all U self k =
       (case percent_decode U k of Inl e \<Rightarrow> Inl (e, self\<lparr>iter := n1\<rparr>)
        | Inr ds \<Rightarrow> Inr (ds, self\<lparr>iter := n1\<rparr>))"
      using decode_all_percent_decode by blast
    show ?thesis
    proof (cases "percent_decode U k")
      case (Inl e)
      with False kv d1 show ?thesis
        by (intro exI [of _ n1]) (simp add: token_pair_def)
    next
      case k': (Inr k')
      obtain n2 where d2: "decode_all U (self\<lparr>iter := n1\<rparr>) v =
         (case percent_decode U v of
            Inl e \<Rightarrow> Inl (e, self\<lparr>iter := n1, iter := n2\<rparr>)
          | Inr ds \<Rightarrow> Inr (ds, self\<lparr>iter := n1, iter := n2\<rparr>))"
        using decode_all_percent_decode [of U "self\<lparr>iter := n1\<rparr>" v] by blast
      show ?thesis
      proof (cases "percent_decode U v")
        case (Inl e)
        with False kv d1 d2 k' show ?thesis
          by (intro exI [of _ n2]) (simp add: token_pair_def)
      next
        case v': (Inr v')
        let ?s = "self\<lparr>iter := n2, query_params := dict_setitem (query_params self) k' v'\<rparr>"
        from Cons.IH [of ?s] obtain n where n:
          "parse_query_tokens U ts ?s =
            (case tokens_result U ts (query_params ?s) of
               Inl (e, d) \<Rightarrow> Inl (e, ?s\<lparr>iter := n, query_params := d\<rparr>)
             | Inr d \<Rightarrow> Inr (?s\<lparr>iter := n, query_params := d\<rparr>))"
          by blast
        show ?thesis
        proof (cases "tokens_result U ts (dict_setitem (query_params self) k' v')")
          case l: (Inl ed)
          with n False kv d1 d2 k' v' show ?thesis
            by (intro exI [of _ n]) (simp add: token_pair_def split: prod.splits)
        next
          case r: (Inr d)
          with n False kv d1 d2 k' v' show ?thesis
            by (intro exI [of _ n]) (simp add: token_pair_def)
        qed
      qed
    qed
  qed
qed

section \<open>\<open>parse\<close> as seen by the caller\<close>

lemma parse_query_view:
  assumes "query_params self = []"
  shows "view (parse_query U self) = query_view U (path self) (fragment self) (query self)"
proof (cases "query self = [] \<or> list_ex bad_query (query self)")
  case True
  with assms show ?thesis
    by (auto simp: parse_query_def query_view_def view_def bad_query_def
        get_path_def get_fragment_def get_query_params_def list_ex_iff)
next
  case False
  obtain n where n: "parse_query_tokens U (split_all 38 (query self)) self =
     (case tokens_result U (split_all 38 (query self)) (query_params self) of
        Inl (e, d) \<Rightarrow> Inl (e, self\<lparr>iter := n, query_params := d\<rparr>)
      | Inr d \<Rightarrow> Inr (self\<lparr>iter := n, query_params := d\<rparr>))"
    using parse_query_tokens_result by blast
  from False have pq: "parse_query U self = parse_query_tokens U (split_all 38 (query self)) self"
    by (auto simp: parse_query_def bad_query_def list_ex_iff)
  show ?thesis
  proof (cases "tokens_result U (split_all 38 (query self)) []")
    case (Inl ed)
    with False n assms show ?thesis
      by (cases ed)
         (simp add: pq query_view_def view_def get_path_def get_fragment_def get_query_params_def)
  next
    case (Inr d)
    with False n assms show ?thesis
      by (simp add: pq query_view_def view_def get_path_def get_fragment_def get_query_params_def)
  qed
qed

lemma parse_path_Inl:
  "scan U bad_path (path self) = Inl e \<Longrightarrow> \<exists>n. parse_path U self = Inl (e, self\<lparr>iter := n\<rparr>)"
  using parse_path_scan [of U self] by simp

lemma parse_path_Inr:
  "scan U bad_path (path self) = Inr ds \<Longrightarrow>
   parse_path U self = Inr (self\<lparr>iter := length (path self), path := ds\<rparr>)"
  using parse_path_scan [of U self] by simp

lemma parse_fragment_Inl:
  "scan U bad_fragment (fragment self) = Inl e \<Longrightarrow>
   \<exists>n. parse_fragment U self = Inl (e, self\<lparr>iter := n\<rparr>)"
  using parse_fragment_scan [of U self] by simp

lemma parse_fragment_Inr:
  "scan U bad_fragment (fragment self) = Inr ds \<Longrightarrow>
   parse_fragment U self = Inr (self\<lparr>iter := length (fragment self), fragment := ds\<rparr>)"
  using parse_fragment_scan [of U self] by simp

lemma parse_view_eq: "view (parse U (init u)) = parse_view U u"
proof (cases "spec_split u")
  case None
  then have "split_uri (init u) = Inl (UriSyntaxError, init u)"
    by (simp add: split_uri_spec)
  with None show ?thesis
    by (simp add: parse_def parse_view_def view_def init_def
        get_path_def get_fragment_def get_query_params_def)
next
  case (Some pqf)
  then obtain p q f where pqf: "spec_split u = Some (p, q, f)"
    by (cases pqf) auto
  define s0 where "s0 = (init u)\<lparr>path := p, query := q, fragment := f\<rparr>"
  have s0: "split_uri (init u) = Inr s0"
    by (simp add: split_uri_spec pqf s0_def)
  have s0_sel: "path s0 = p" "fragment s0 = f" "query s0 = q" "query_params s0 = []"
    by (simp_all add: s0_def init_def)
  show ?thesis
  proof (cases "scan U bad_path p")
    case (Inl e)
    with parse_path_Inl [of U s0 e] s0_sel obtain n where "parse_path U s0 = Inl (e, s0\<lparr>iter := n\<rparr>)"
      by auto
    with Inl s0_sel show ?thesis
      by (simp add: parse_def s0 parse_view_def pqf view_def
          get_path_def get_fragment_def get_query_params_def)
  next
    case p': (Inr p')
    define s1 where "s1 = s0\<lparr>iter := length p, path := p'\<rparr>"
    have s1: "parse_path U s0 = Inr s1"
      using parse_path_Inr [of U s0 p'] p' s0_sel by (simp add: s1_def)
    have s1_sel: "path s1 = p'" "fragment s1 = f" "query s1 = q" "query_params s1 = []"
      by (simp_all add: s1_def s0_sel)
    show ?thesis
    proof (cases "scan U bad_fragment f")
      case (Inl e)
      with parse_fragment_Inl [of U s1 e] s1_sel obtain n where
        "parse_fragment U s1 = Inl (e, s1\<lparr>iter := n\<rparr>)"
        by auto
      with Inl p' s1_sel show ?thesis
        by (simp add: parse_def s0 s1 parse_view_def pqf view_def
            get_path_def get_fragment_def get_query_params_def)
    next
      case f': (Inr f')
      define s2 where "s2 = s1\<lparr>iter := length f, fragment := f'\<rparr>"
      have s2: "parse_fragment U s1 = Inr s2"
        using parse_fragment_Inr [of U s1 f'] f' s1_sel by (simp add: s2_def)
      have s2_sel: "path s2 = p'" "fragment s2 = f'" "query s2 = q" "query_params s2 = []"
        by (simp_all add: s2_def s1_sel)
      have "view (parse_query U s2) = query_view U p' f' q"
        using parse_query_view [of s2 U] s2_sel by simp
      with p' f' show ?thesis
        by (simp add: parse_def s0 s1 s2 parse_view_def pqf)
    qed
  qed
qed

section \<open>Facts about scans, dictionaries and tokens\<close>

lemma map_fst_dict_setitem:
  "map fst (dict_setitem d k v) = (if k \<in> set (map fst d) then map fst d else map fst d @ [k])"
  by (induction d) auto

lemma map_of_dict_setitem: "map_of (dict_setitem d k v) = (map_of d)(k \<mapsto> v)"
  by (induction d) (auto simp: fun_eq_iff)

lemma distinct_dict_setitem:
  "distinct (map fst d) \<Longrightarrow> distinct (map fst (dict_setitem d k v))"
  by (simp add: map_fst_dict_setitem)

lemma assign_all_Nil: "assign_all d [] = d"
  by (simp add: assign_all_def)

lemma assign_all_Cons: "assign_all d (kv # kvs) = assign_all (dict_setitem d (fst kv) (snd kv)) kvs"
  by (simp add: assign_all_def)

lemma assign_all_snoc: "assign_all d (kvs @ [kv]) = dict_setitem (assign_all d kvs) (fst kv) (snd kv)"
  by (simp add: assign_all_def)

lemma distinct_assign_all: "distinct (map fst d) \<Longrightarrow> distinct (map fst (assign_all d kvs))"
  by (induction kvs arbitrary: d) (simp_all add: assign_all_Nil assign_all_Cons distinct_dict_setitem)

lemma map_of_assign_all: "map_of (assign_all d kvs) = map_of d ++ map_of (rev kvs)"
proof (induction kvs rule: rev_induct)
  case Nil
  show ?case by (simp add: assign_all_Nil)
next
  case (snoc kv kvs)
  then show ?case
    by (cases kv)
       (auto simp: fun_eq_iff map_add_def assign_all_snoc map_of_dict_setitem split: option.splits)
qed

lemma set_first_occ: "set (first_occ xs) = set xs"
  by (induction xs) auto

lemma first_occ_notin: "x \<notin> set xs \<Longrightarrow> filter (\<lambda>y. y \<noteq> x) (first_occ xs) = first_occ xs"
  by (auto simp: filter_id_conv set_first_occ)

lemma map_fst_assign_all:
  "distinct (map fst d) \<Longrightarrow>
   map fst (assign_all d kvs)
     = map fst d @ filter (\<lambda>k. k \<notin> set (map fst d)) (first_occ (map fst kvs))"
proof (induction kvs arbitrary: d)
  case Nil
  show ?case by (simp add: assign_all_Nil)
next
  case (Cons kv kvs)
  let ?k = "fst kv"
  let ?d = "dict_setitem d ?k (snd kv)"
  have d: "distinct (map fst ?d)"
    using Cons.prems by (rule distinct_dict_setitem)
  note ih = Cons.IH [OF d]
  show ?case
  proof (cases "?k \<in> set (map fst d)")
    case True
    then have keys: "map fst ?d = map fst d"
      by (simp add: map_fst_dict_setitem)
    have "filter (\<lambda>k. k \<notin> set (map fst d)) (filter (\<lambda>y. y \<noteq> ?k) (first_occ (map fst kvs)))
        = filter (\<lambda>k. k \<notin> set (map fst d)) (first_occ (map fst kvs))"
      using True by (auto intro: filter_cong)
    with True ih keys show ?thesis
      by (simp add: assign_all_Cons)
  next
    case False
    then have keys: "map fst ?d = map fst d @ [?k]"
      by (simp add: map_fst_dict_setitem)
    have "filter (\<lambda>k. k \<notin> set (map fst d @ [?k])) (first_occ (map fst kvs))
        = filter (\<lambda>k. k \<notin> set (map fst d)) (filter (\<lambda>y. y \<noteq> ?k) (first_occ (map fst kvs)))"
      by (auto intro: filter_cong)
    with False ih keys show ?thesis
      by (simp add: assign_all_Cons)
  qed
qed

lemma tokens_result_Inr:
  "tokens_result U ts d = Inr d' \<Longrightarrow>
   \<exists>kvs. map (token_pair U) ts = map Inr kvs \<and> d' = assign_all d kvs"
proof (induction ts arbitrary: d)
  case Nil
  then show ?case by (simp add: assign_all_Nil)
next
  case (Cons t ts)
  then obtain k v where kv: "token_pair U t = Inr (k, v)"
    and r: "tokens_result U ts (dict_setitem d k v) = Inr d'"
    by (auto split: sum.splits)
  from Cons.IH [OF r] obtain kvs where
    "map (token_pair U) ts = map Inr kvs" "d' = assign_all (dict_setitem d k v) kvs"
    by blast
  with kv show ?case
    by (intro exI [of _ "(k, v) # kvs"]) (simp add: assign_all_Cons)
qed

lemma tokens_result_append:
  "tokens_result U (ts @ ts') d =
     (case tokens_result U ts d of Inl e \<Rightarrow> Inl e | Inr d' \<Rightarrow> tokens_result U ts' d')"
  by (induction ts arbitrary: d) (auto split: sum.splits)

lemma split_all_notin: "sep \<notin> set t \<Longrightarrow> split_all sep t = [t]"
  by (induction t) auto

lemma split_all_ne: "split_all sep q \<noteq> []"
  by (induction q) (auto split: list.splits)

lemma split_all_append: "split_all sep (q @ sep # r) = split_all sep q @ split_all sep r"
  by (induction q) (auto simp: split_all_ne split: list.splits)

section \<open>Facts about scans\<close>

lemma scan_Cons_Inr:
  assumes "scan U bad (c # cs) = Inr ds"
  shows "(c = 37 \<and> (\<exists>a b rest d ds'. cs = a # b # rest \<and> decode U [a, b] = Inr d
              \<and> scan U bad rest = Inr ds' \<and> ds = d # ds'))
       \<or> (c \<noteq> 37 \<and> \<not> bad c \<and> (\<exists>ds'. scan U bad cs = Inr ds' \<and> ds = c # ds'))"
proof (cases "c = 37")
  case True
  with assms show ?thesis
    by (cases cs; cases "tl cs") (auto split: sum.splits)
next
  case False
  with assms show ?thesis
    by (auto split: if_splits sum.splits)
qed

lemma scan_lax: "scan U bad x = Inr ds \<Longrightarrow> scan U bad_none x = Inr ds"
proof (induction x arbitrary: ds rule: length_induct)
  case (1 x)
  show ?case
  proof (cases x)
    case Nil
    with "1.prems" show ?thesis by simp
  next
    case (Cons c cs)
    from scan_Cons_Inr [OF "1.prems" [unfolded Cons]] show ?thesis
    proof (elim disjE conjE exE)
      fix a b rest d ds'
      assume h: "c = 37" "cs = a # b # rest" "decode U [a, b] = Inr d"
        "scan U bad rest = Inr ds'" "ds = d # ds'"
      with "1.IH" Cons have "scan U bad_none rest = Inr ds'"
        by simp
      with h Cons show ?thesis by simp
    next
      fix ds'
      assume h: "c \<noteq> 37" "\<not> bad c" "scan U bad cs = Inr ds'" "ds = c # ds'"
      with "1.IH" Cons have "scan U bad_none cs = Inr ds'"
        by simp
      moreover have "\<not> bad_none c"
        by (simp add: bad_none_def)
      ultimately show ?thesis
        using h Cons by simp
    qed
  qed
qed


lemma escaped_percent: "escaped U raw c \<Longrightarrow> 37 \<in> set raw"
  by (induction raw) auto

section \<open>Consequences for the caller\<close>

lemma split_uri_Inr:
  assumes "split_uri (init u) = Inr s0"
  shows "spec_split u = Some (path s0, query s0, fragment s0)"
proof (cases "spec_split u")
  case None
  with assms show ?thesis
    by (simp add: split_uri_spec)
next
  case (Some pqf)
  obtain p q f where pqf: "pqf = (p, q, f)"
    by (cases pqf)
  from assms Some pqf
  have "s0 = (init u)\<lparr>path := p, query := q, fragment := f\<rparr>"
    by (simp add: split_uri_spec)
  then show ?thesis
    using Some pqf by (simp add: init_def)
qed

lemma view_Inr: "r = Inr s \<Longrightarrow> view r = Inr (get_path s, get_fragment s, get_query_params s)"
  by (simp add: view_def)


lemma query_view_Inr:
  "query_view U p f q = Inr (p', f', d) \<Longrightarrow> p' = p \<and> f' = f"
  by (auto simp: query_view_def split: if_splits sum.splits)

lemma parse_Inr:
  assumes "parse U (init u) = Inr s" and "split_uri (init u) = Inr s0"
  shows "scan U bad_path (path s0) = Inr (get_path s)"
    and "scan U bad_fragment (fragment s0) = Inr (get_fragment s)"
    and "query_view U (get_path s) (get_fragment s) (query s0)
           = Inr (get_path s, get_fragment s, get_query_params s)"
proof -
  have v: "parse_view U u = Inr (get_path s, get_fragment s, get_query_params s)"
    using view_Inr [OF assms(1)] by (simp add: parse_view_eq)
  note sp = split_uri_Inr [OF assms(2)]
  from v sp obtain p' where p': "scan U bad_path (path s0) = Inr p'"
    by (cases "scan U bad_path (path s0)") (auto simp: parse_view_def)
  from v sp p' obtain f' where f': "scan U bad_fragment (fragment s0) = Inr f'"
    by (cases "scan U bad_fragment (fragment s0)") (auto simp: parse_view_def)
  from v sp p' f' have q:
    "query_view U p' f' (query s0) = Inr (get_path s, get_fragment s, get_query_params s)"
    by (simp add: parse_view_def)
  from query_view_Inr [OF q] have eq: "get_path s = p'" "get_fragment s = f'"
    by simp_all
  show "scan U bad_path (path s0) = Inr (get_path s)"
    using p' eq by simp
  show "scan U bad_fragment (fragment s0) = Inr (get_fragment s)"
    using f' eq by simp
  show "query_view U (get_path s) (get_fragment s) (query s0)
           = Inr (get_path s, get_fragment s, get_query_params s)"
    using q eq by simp
qed

section \<open>Escapes of two hexadecimal digits\<close>

lemma view_Inr_D:
  "view r = Inr (p, f, d) \<Longrightarrow>
   \<exists>s. r = Inr s \<and> get_path s = p \<and> get_fragment s = f \<and> get_query_params s = d"
  by (cases r) (auto simp: view_def)

lemma digit_value_range:
  "digit_value c = Some x \<Longrightarrow>
   x < 16 \<and> ((48 \<le> c \<and> c \<le> 57) \<or> (97 \<le> c \<and> c \<le> 102) \<or> (65 \<le> c \<and> c \<le> 70))"
  by (auto simp: digit_value_def split: if_splits)

lemma scan_digits_two:
  assumes "digit_value a = Some x" and "digit_value b = Some y"
  shows "scan_digits 0 0 0 [a, b] = Some (int (16 * x + y), 2, [])"
proof -
  from digit_value_range [OF assms(2)] have "b \<noteq> 95"
    by auto
  with assms show ?thesis
    by (simp add: numeral_2_eq_2)
qed

lemma py_int16_two_digits:
  assumes "digit_value a = Some x" and "digit_value b = Some y"
  shows "py_int16 U [a, b] = Some (int (16 * x + y))"
proof -
  note ra = digit_value_range [OF assms(1)] and rb = digit_value_range [OF assms(2)]
  from ra rb have asc: "map (to_ascii U) [a, b] = [a, b]"
    by (auto simp: to_ascii_def)
  from ra have sp: "\<not> py_isspace a"
    by (auto simp: py_isspace_def)
  from ra have a: "a \<noteq> 45" "a \<noteq> 43" "a \<noteq> 95"
    by auto
  from rb have b: "b \<noteq> 120" "b \<noteq> 88"
    by auto
  show ?thesis
    unfolding py_int16_def asc
    using sp a b by (simp add: scan_digits_two [OF assms] del: scan_digits.simps)
qed

lemma decode_two_digits:
  assumes "digit_value a = Some x" and "digit_value b = Some y"
  shows "decode U [a, b] = Inr (16 * x + y)"
  using digit_value_range [OF assms(1)] digit_value_range [OF assms(2)]
  by (simp add: decode_def py_int16_two_digits [OF assms] py_chr_def)

lemma digit_value_hex:
  "d < 16 \<Longrightarrow> digit_value (hex_upper d) = Some d \<and> digit_value (hex_lower d) = Some d"
  by (auto simp: digit_value_def hex_upper_def hex_lower_def)

section \<open>Tokens with an empty key or value\<close>

lemma split_max1_append: "sep \<notin> set k \<Longrightarrow> split_max1 sep (k @ sep # v) = [k, v]"
  by (induction k) auto

lemma py_count_append:
  "sep \<notin> set k \<Longrightarrow> sep \<notin> set v \<Longrightarrow> py_count sep (k @ sep # v) = 1"
  by (auto simp: py_count_def filter_empty_conv)

lemma token_pair_eq:
  assumes "61 \<notin> set k" and "61 \<notin> set v"
    and "percent_decode U k = Inr k'" and "percent_decode U v = Inr v'"
  shows "token_pair U (k @ 61 # v) = Inr (k', v')"
  using assms by (simp add: token_pair_def py_count_append split_max1_append)

lemma not_reserved:
  assumes "\<forall>c\<in>set x. c \<notin> set reserved_chars"
  shows "61 \<notin> set x" and "38 \<notin> set x" and "\<not> list_ex bad_query x"
proof -
  have "61 \<in> set reserved_chars" "38 \<in> set reserved_chars"
    by (simp_all add: reserved_chars_eq)
  with assms show "61 \<notin> set x" "38 \<notin> set x"
    by auto
  from assms show "\<not> list_ex bad_query x"
    by (auto simp: list_ex_iff bad_query_def)
qed

lemma percent_decode_Nil: "percent_decode U [] = Inr []"
  by (simp add: percent_decode_scan)

section \<open>One more token anywhere in a query\<close>

lemma tokens_result_pairs:
  "map (token_pair U) ts = map Inr kvs \<Longrightarrow> tokens_result U ts d = Inr (assign_all d kvs)"
proof (induction ts arbitrary: d kvs)
  case Nil
  then show ?case
    by (simp add: assign_all_Nil)
next
  case (Cons t ts)
  from Cons.prems obtain kv kvs' where kvs: "kvs = kv # kvs'"
    and t: "token_pair U t = Inr kv" and ts: "map (token_pair U) ts = map Inr kvs'"
    by (cases kvs) auto
  from Cons.IH [OF ts] t show ?case
    by (cases kv) (simp add: kvs assign_all_Cons)
qed

lemma split_all_covers:
  "c \<in> set q \<Longrightarrow> c \<noteq> sep \<Longrightarrow> \<exists>t\<in>set (split_all sep q). c \<in> set t"
proof (induction q)
  case Nil
  then show ?case
    by simp
next
  case (Cons a q)
  obtain t ts where ts: "split_all sep q = t # ts"
    using split_all_ne [of sep q] by (cases "split_all sep q") auto
  show ?case
  proof (cases "c = a")
    case True
    with Cons.prems(2) ts show ?thesis
      by simp
  next
    case False
    with Cons.prems have "c \<in> set q"
      by simp
    from Cons.IH [OF this Cons.prems(2)] obtain t' where t': "t' \<in> set (t # ts)" "c \<in> set t'"
      unfolding ts by blast
    show ?thesis
    proof (cases "a = sep")
      case True
      with t' ts show ?thesis
        by auto
    next
      case False
      show ?thesis
      proof (cases "t' = t")
        case True
        with False t' ts show ?thesis
          by simp
      next
        case False
        with t' have "t' \<in> set ts"
          by simp
        with \<open>a \<noteq> sep\<close> t'(2) ts show ?thesis
          by auto
      qed
    qed
  qed
qed

lemma split_all_within: "t \<in> set (split_all sep q) \<Longrightarrow> c \<in> set t \<Longrightarrow> c \<in> set q"
proof (induction q arbitrary: t)
  case Nil
  then show ?case
    by simp
next
  case (Cons a q)
  obtain t0 ts where ts: "split_all sep q = t0 # ts"
    using split_all_ne [of sep q] by (cases "split_all sep q") auto
  show ?case
  proof (cases "a = sep")
    case True
    with Cons.prems ts have "t \<in> set (split_all sep q)"
      by auto
    from Cons.IH [OF this Cons.prems(2)] show ?thesis
      by simp
  next
    case False
    with Cons.prems(1) ts have "t = a # t0 \<or> t \<in> set ts"
      by simp
    then show ?thesis
    proof
      assume t: "t = a # t0"
      show ?thesis
      proof (cases "c = a")
        case True
        then show ?thesis
          by simp
      next
        case False
        with t Cons.prems(2) have "c \<in> set t0"
          by simp
        moreover have "t0 \<in> set (split_all sep q)"
          by (simp add: ts)
        ultimately have "c \<in> set q"
          using Cons.IH by blast
        then show ?thesis
          by simp
      qed
    next
      assume "t \<in> set ts"
      then have "t \<in> set (split_all sep q)"
        by (simp add: ts)
      from Cons.IH [OF this Cons.prems(2)] show ?thesis
        by simp
    qed
  qed
qed

lemma query_view_insert_token:
  assumes q: "query_view U p f q = Inr (p, f, d)"
    and pp: "if pre @ post = [] then q = [] else q \<noteq> [] \<and> split_all 38 q = pre @ post"
    and q': "split_all 38 q' = pre @ (k @ 61 # v) # post"
    and k: "\<forall>c\<in>set k. c \<notin> set reserved_chars"
    and v: "\<forall>c\<in>set v. c \<notin> set reserved_chars"
    and k': "percent_decode U k = Inr k'"
    and v': "percent_decode U v = Inr v'"
  shows "\<exists>kpre kpost. map (token_pair U) pre = map Inr kpre
           \<and> map (token_pair U) post = map Inr kpost
           \<and> d = assign_all [] (kpre @ kpost)
           \<and> query_view U p f q' = Inr (p, f, assign_all [] (kpre @ (k', v') # kpost))"
proof -
  let ?tok = "k @ 61 # v"
  have tp: "token_pair U ?tok = Inr (k', v')"
    using not_reserved(1) [OF k] not_reserved(1) [OF v] k' v' by (rule token_pair_eq)
  have ok: "\<not> bad_query c" if "c \<in> set ?tok" for c
    using that k v by (auto simp: bad_query_def)
  have ne: "q' \<noteq> []"
  proof
    assume "q' = []"
    with q' have "[[]] = pre @ ?tok # post"
      by simp
    then show False
      by (cases pre) auto
  qed
  have "\<exists>kpre kpost. map (token_pair U) pre = map Inr kpre
           \<and> map (token_pair U) post = map Inr kpost
           \<and> d = assign_all [] (kpre @ kpost)
           \<and> (\<forall>t\<in>set (pre @ post). \<forall>c\<in>set t. \<not> bad_query c)"
  proof (cases "pre @ post = []")
    case True
    with pp q have "d = []"
      by (simp add: query_view_def)
    with True show ?thesis
      by (simp add: assign_all_Nil)
  next
    case False
    with pp have qne: "q \<noteq> []" and sp: "split_all 38 q = pre @ post"
      by simp_all
    from qne q have nb: "\<not> list_ex bad_query q"
      by (auto simp: query_view_def split: if_splits)
    from qne q nb have "tokens_result U (pre @ post) [] = Inr d"
      by (auto simp: query_view_def sp split: sum.splits)
    from tokens_result_Inr [OF this] obtain kvs
      where m: "map (token_pair U) (pre @ post) = map Inr kvs" and d: "d = assign_all [] kvs"
      by blast
    from m have "map (token_pair U) pre @ map (token_pair U) post = map Inr kvs"
      by simp
    then obtain kpre kpost where "kvs = kpre @ kpost"
      and "map (token_pair U) pre = map Inr kpre" and "map (token_pair U) post = map Inr kpost"
      unfolding append_eq_map_conv by blast
    moreover have "\<forall>t\<in>set (pre @ post). \<forall>c\<in>set t. \<not> bad_query c"
    proof (intro ballI)
      fix t c
      assume "t \<in> set (pre @ post)" and "c \<in> set t"
      then have "c \<in> set q"
        unfolding sp [symmetric] by (rule split_all_within)
      with nb show "\<not> bad_query c"
        by (auto simp: list_ex_iff)
    qed
    ultimately show ?thesis
      using d by blast
  qed
  then obtain kpre kpost where kpre: "map (token_pair U) pre = map Inr kpre"
    and kpost: "map (token_pair U) post = map Inr kpost"
    and d: "d = assign_all [] (kpre @ kpost)"
    and good: "\<forall>t\<in>set (pre @ post). \<forall>c\<in>set t. \<not> bad_query c"
    by blast
  have nb': "\<not> list_ex bad_query q'"
  proof
    assume "list_ex bad_query q'"
    then obtain c where c: "c \<in> set q'" "bad_query c"
      by (auto simp: list_ex_iff)
    then have "c \<noteq> 38"
      by (auto simp: bad_query_def)
    from split_all_covers [OF c(1) this] have "\<exists>t\<in>set (pre @ ?tok # post). c \<in> set t"
      by (simp only: q')
    then obtain t where "t \<in> set (pre @ ?tok # post)" and ct: "c \<in> set t"
      by blast
    then have "t = ?tok \<or> t \<in> set (pre @ post)"
      by auto
    with ct good ok have "\<not> bad_query c"
      by blast
    with c(2) show False
      by simp
  qed
  from kpre kpost tp
  have "map (token_pair U) (pre @ ?tok # post) = map Inr (kpre @ (k', v') # kpost)"
    by simp
  from tokens_result_pairs [OF this]
  have "tokens_result U (split_all 38 q') [] = Inr (assign_all [] (kpre @ (k', v') # kpost))"
    by (simp only: q')
  with ne nb' have "query_view U p f q' = Inr (p, f, assign_all [] (kpre @ (k', v') # kpost))"
    by (simp add: query_view_def)
  with kpre kpost d show ?thesis
    by blast
qed

lemma parse_insert_token:
  assumes p: "parse U (init u) = Inr s"
    and s0: "split_uri (init u) = Inr s0"
    and s0': "split_uri (init u') = Inr s0'"
    and same: "path s0' = path s0" "fragment s0' = fragment s0"
    and pp: "if pre @ post = [] then query s0 = []
             else query s0 \<noteq> [] \<and> split_all 38 (query s0) = pre @ post"
    and q': "split_all 38 (query s0') = pre @ (k @ 61 # v) # post"
    and k: "\<forall>c\<in>set k. c \<notin> set reserved_chars"
    and v: "\<forall>c\<in>set v. c \<notin> set reserved_chars"
    and k': "percent_decode U k = Inr k'"
    and v': "percent_decode U v = Inr v'"
  shows "\<exists>s' kpre kpost. parse U (init u') = Inr s' \<and> get_path s' = get_path s
           \<and> get_fragment s' = get_fragment s
           \<and> map (token_pair U) pre = map Inr kpre
           \<and> map (token_pair U) post = map Inr kpost
           \<and> get_query_params s = assign_all [] (kpre @ kpost)
           \<and> get_query_params s' = assign_all [] (kpre @ (k', v') # kpost)
           \<and> k' \<in> set (map fst (get_query_params s'))
           \<and> (k' \<notin> set (map fst kpost) \<longrightarrow> map_of (get_query_params s') k' = Some v')"
proof -
  note r = parse_Inr [OF p s0]
  from query_view_insert_token [OF r(3) pp q' k v k' v'] obtain kpre kpost
    where kpre: "map (token_pair U) pre = map Inr kpre"
      and kpost: "map (token_pair U) post = map Inr kpost"
      and d: "get_query_params s = assign_all [] (kpre @ kpost)"
      and qv: "query_view U (get_path s) (get_fragment s) (query s0')
          = Inr (get_path s, get_fragment s, assign_all [] (kpre @ (k', v') # kpost))"
    by blast
  from qv r(1) r(2) same split_uri_Inr [OF s0']
  have "parse_view U u'
          = Inr (get_path s, get_fragment s, assign_all [] (kpre @ (k', v') # kpost))"
    by (simp add: parse_view_def)
  then have "view (parse U (init u'))
          = Inr (get_path s, get_fragment s, assign_all [] (kpre @ (k', v') # kpost))"
    by (simp add: parse_view_eq)
  from view_Inr_D [OF this] obtain s' where s': "parse U (init u') = Inr s'"
    "get_path s' = get_path s" "get_fragment s' = get_fragment s"
    "get_query_params s' = assign_all [] (kpre @ (k', v') # kpost)"
    by blast
  have "set (map fst (assign_all [] (kpre @ (k', v') # kpost)))
          = set (map fst (kpre @ (k', v') # kpost))"
    using map_fst_assign_all [of "[]" "kpre @ (k', v') # kpost"]
    by (simp add: set_first_occ)
  then have mem: "k' \<in> set (map fst (get_query_params s'))"
    by (simp add: s'(4))
  have "map_of (get_query_params s') k' = Some v'" if "k' \<notin> set (map fst kpost)"
  proof -
    from that have "map_of (rev kpost) k' = None"
      by (simp add: map_of_eq_None_iff)
    then show ?thesis
      by (simp add: s'(4) map_of_assign_all map_add_def)
  qed
  with s' kpre kpost d mem show ?thesis
    by blast
qed

section \<open>Claims\<close>




text \<open>
  C2. For every input \<open>u\<close>, with the index of the first \<open>?\<close> and of the first \<open>#\<close>:
  when both occur and the \<open>?\<close> comes after the \<open>#\<close>, \<open>parse\<close> raises \<open>UriSyntaxError\<close>
  (with the object untouched); when both occur in order, the splitter stores the text
  before the \<open>?\<close> as the raw path, the text between the \<open>?\<close> and the \<open>#\<close> as the raw query
  and the text after the \<open>#\<close> as the raw fragment; when only the \<open>?\<close> occurs, the text after
  it is the raw query, and when only the \<open>#\<close> occurs, the text after it is the raw fragment;
  when neither occurs and \<open>parse\<close> succeeds, the path is the percent-decoded input, and
  the parameters and the fragment are empty.
\<close>

theorem C2_splitter:
  "(of_char CHR ''?'' \<in> set u \<and> of_char CHR ''#'' \<in> set u
      \<and> first_index (of_char CHR ''#'') u < first_index (of_char CHR ''?'') u
    \<longrightarrow> parse U (init u) = Inl (UriSyntaxError, init u))
 \<and> (of_char CHR ''?'' \<in> set u \<and> of_char CHR ''#'' \<in> set u
      \<and> first_index (of_char CHR ''?'') u < first_index (of_char CHR ''#'') u
    \<longrightarrow> split_uri (init u)
         = Inr ((init u)\<lparr>path := take (first_index (of_char CHR ''?'') u) u,
                 query := take (first_index (of_char CHR ''#'') u
                                 - first_index (of_char CHR ''?'') u - 1)
                            (drop (first_index (of_char CHR ''?'') u + 1) u),
                 fragment := drop (first_index (of_char CHR ''#'') u + 1) u\<rparr>))
 \<and> (of_char CHR ''?'' \<in> set u \<and> of_char CHR ''#'' \<notin> set u
    \<longrightarrow> split_uri (init u)
         = Inr ((init u)\<lparr>path := take (first_index (of_char CHR ''?'') u) u,
                 query := drop (first_index (of_char CHR ''?'') u + 1) u,
                 fragment := []\<rparr>))
 \<and> (of_char CHR ''?'' \<notin> set u \<and> of_char CHR ''#'' \<in> set u
    \<longrightarrow> split_uri (init u)
         = Inr ((init u)\<lparr>path := take (first_index (of_char CHR ''#'') u) u,
                 query := [],
                 fragment := drop (first_index (of_char CHR ''#'') u + 1) u\<rparr>))
 \<and> (of_char CHR ''?'' \<notin> set u \<and> of_char CHR ''#'' \<notin> set u \<and> parse U (init u) = Inr s
    \<longrightarrow> percent_decode U u = Inr (get_path s)
        \<and> get_query_params s = [] \<and> get_fragment s = [])"
proof (intro conjI impI)
  assume "of_char CHR ''?'' \<in> set u \<and> of_char CHR ''#'' \<in> set u
      \<and> first_index (of_char CHR ''#'') u < first_index (of_char CHR ''?'') u"
  then have "spec_split u = None"
    by (simp add: spec_split_def Let_def)
  then have "split_uri (init u) = Inl (UriSyntaxError, init u)"
    by (simp add: split_uri_spec)
  then show "parse U (init u) = Inl (UriSyntaxError, init u)"
    by (simp add: parse_def)
next
  assume "of_char CHR ''?'' \<in> set u \<and> of_char CHR ''#'' \<in> set u
      \<and> first_index (of_char CHR ''?'') u < first_index (of_char CHR ''#'') u"
  then have "spec_split u = Some (take (first_index 63 u) u,
      take (first_index 35 u - first_index 63 u - 1) (drop (first_index 63 u + 1) u),
      drop (first_index 35 u + 1) u)"
    by (simp add: spec_split_def Let_def)
  then show "split_uri (init u)
         = Inr ((init u)\<lparr>path := take (first_index (of_char CHR ''?'') u) u,
                 query := take (first_index (of_char CHR ''#'') u
                                 - first_index (of_char CHR ''?'') u - 1)
                            (drop (first_index (of_char CHR ''?'') u + 1) u),
                 fragment := drop (first_index (of_char CHR ''#'') u + 1) u\<rparr>)"
    by (simp add: split_uri_spec)
next
  assume "of_char CHR ''?'' \<in> set u \<and> of_char CHR ''#'' \<notin> set u"
  then have "spec_split u = Some (take (first_index 63 u) u, drop (first_index 63 u + 1) u, [])"
    by (simp add: spec_split_def Let_def)
  then show "split_uri (init u)
         = Inr ((init u)\<lparr>path := take (first_index (of_char CHR ''?'') u) u,
                 query := drop (first_index (of_char CHR ''?'') u + 1) u,
                 fragment := []\<rparr>)"
    by (simp add: split_uri_spec)
next
  assume "of_char CHR ''?'' \<notin> set u \<and> of_char CHR ''#'' \<in> set u"
  then have "spec_split u = Some (take (first_index 35 u) u, [], drop (first_index 35 u + 1) u)"
    by (simp add: spec_split_def Let_def)
  then show "split_uri (init u)
         = Inr ((init u)\<lparr>path := take (first_index (of_char CHR ''#'') u) u,
                 query := [],
                 fragment := drop (first_index (of_char CHR ''#'') u + 1) u\<rparr>)"
    by (simp add: split_uri_spec)
next
  assume a: "of_char CHR ''?'' \<notin> set u \<and> of_char CHR ''#'' \<notin> set u \<and> parse U (init u) = Inr s"
  then have sp: "spec_split u = Some (u, [], [])"
    by (simp add: spec_split_def Let_def)
  then have s0: "split_uri (init u) = Inr ((init u)\<lparr>path := u, query := [], fragment := []\<rparr>)"
    by (simp add: split_uri_spec)
  from a have p: "parse U (init u) = Inr s"
    by simp
  from parse_Inr(1) [OF p s0] have "scan U bad_path u = Inr (get_path s)"
    by simp
  then show "percent_decode U u = Inr (get_path s)"
    by (simp add: percent_decode_scan scan_lax)
  from parse_Inr(2) [OF p s0] show "get_fragment s = []"
    by simp
  from parse_Inr(3) [OF p s0] show "get_query_params s = []"
    by (simp add: query_view_def)
qed

theorem C2_witness:
  "parse ascii (init (str ''a#b?c'')) = Inl (UriSyntaxError, init (str ''a#b?c''))
   \<and> split_uri (init (str ''a?b?c#d#e''))
       = Inr \<lparr>uri_content = str ''a?b?c#d#e'', path = str ''a'', fragment = str ''d#e'',
              query = str ''b?c'', query_params = [], iter = 0\<rparr>
   \<and> split_uri (init (str ''a?b''))
       = Inr \<lparr>uri_content = str ''a?b'', path = str ''a'', fragment = [],
              query = str ''b'', query_params = [], iter = 0\<rparr>
   \<and> split_uri (init (str ''a#b''))
       = Inr \<lparr>uri_content = str ''a#b'', path = str ''a'', fragment = str ''b'',
              query = [], query_params = [], iter = 0\<rparr>
   \<and> percent_decode ascii (str ''/a%41'') = Inr (str ''/aA'')"
proof -
  have h1: "of_char CHR ''?'' \<in> set (str ''a#b?c'') \<and> of_char CHR ''#'' \<in> set (str ''a#b?c'')
      \<and> first_index (of_char CHR ''#'') (str ''a#b?c'')
          < first_index (of_char CHR ''?'') (str ''a#b?c'')"
    by code_simp
  have h2: "of_char CHR ''?'' \<in> set (str ''a?b?c#d#e'')
      \<and> of_char CHR ''#'' \<in> set (str ''a?b?c#d#e'')
      \<and> first_index (of_char CHR ''?'') (str ''a?b?c#d#e'')
          < first_index (of_char CHR ''#'') (str ''a?b?c#d#e'')"
    by code_simp
  have e2: "(init (str ''a?b?c#d#e''))
       \<lparr>path := take (first_index (of_char CHR ''?'') (str ''a?b?c#d#e'')) (str ''a?b?c#d#e''),
        query := take (first_index (of_char CHR ''#'') (str ''a?b?c#d#e'')
                        - first_index (of_char CHR ''?'') (str ''a?b?c#d#e'') - 1)
                   (drop (first_index (of_char CHR ''?'') (str ''a?b?c#d#e'') + 1)
                      (str ''a?b?c#d#e'')),
        fragment := drop (first_index (of_char CHR ''#'') (str ''a?b?c#d#e'') + 1)
                      (str ''a?b?c#d#e'')\<rparr>
     = \<lparr>uri_content = str ''a?b?c#d#e'', path = str ''a'', fragment = str ''d#e'',
              query = str ''b?c'', query_params = [], iter = 0\<rparr>"
    by code_simp
  have h3: "of_char CHR ''?'' \<in> set (str ''a?b'') \<and> of_char CHR ''#'' \<notin> set (str ''a?b'')"
    by code_simp
  have e3: "(init (str ''a?b''))
       \<lparr>path := take (first_index (of_char CHR ''?'') (str ''a?b'')) (str ''a?b''),
        query := drop (first_index (of_char CHR ''?'') (str ''a?b'') + 1) (str ''a?b''),
        fragment := []\<rparr>
     = \<lparr>uri_content = str ''a?b'', path = str ''a'', fragment = [],
              query = str ''b'', query_params = [], iter = 0\<rparr>"
    by code_simp
  have h4: "of_char CHR ''?'' \<notin> set (str ''a#b'') \<and> of_char CHR ''#'' \<in> set (str ''a#b'')"
    by code_simp
  have e4: "(init (str ''a#b''))
       \<lparr>path := take (first_index (of_char CHR ''#'') (str ''a#b'')) (str ''a#b''),
        query := [],
        fragment := drop (first_index (of_char CHR ''#'') (str ''a#b'') + 1) (str ''a#b'')\<rparr>
     = \<lparr>uri_content = str ''a#b'', path = str ''a'', fragment = str ''b'',
              query = [], query_params = [], iter = 0\<rparr>"
    by code_simp
  have h5: "of_char CHR ''?'' \<notin> set (str ''/a%41'') \<and> of_char CHR ''#'' \<notin> set (str ''/a%41'')
      \<and> parse ascii (init (str ''/a%41''))
          = Inr \<lparr>uri_content = str ''/a%41'', path = str ''/aA'', fragment = [],
                  query = [], query_params = [], iter = 0\<rparr>"
    by code_simp
  have e5: "get_path \<lparr>uri_content = str ''/a%41'', path = str ''/aA'', fragment = [],
                  query = [], query_params = [], iter = 0\<rparr> = str ''/aA''"
    by (simp add: get_path_def)
  note c1 = C2_splitter [of "str ''a#b?c''" ascii]
    and c2 = C2_splitter [of "str ''a?b?c#d#e''" ascii]
    and c3 = C2_splitter [of "str ''a?b''" ascii]
    and c4 = C2_splitter [of "str ''a#b''" ascii]
    and c5 = C2_splitter [of "str ''/a%41''" ascii
        "\<lparr>uri_content = str ''/a%41'', path = str ''/aA'', fragment = [],
                  query = [], query_params = [], iter = 0\<rparr>"]
  from c1 h1 have r1: "parse ascii (init (str ''a#b?c'')) = Inl (UriSyntaxError, init (str ''a#b?c''))"
    by blast
  from c2 h2 have r2: "split_uri (init (str ''a?b?c#d#e''))
       = Inr \<lparr>uri_content = str ''a?b?c#d#e'', path = str ''a'', fragment = str ''d#e'',
              query = str ''b?c'', query_params = [], iter = 0\<rparr>"
    unfolding e2 by blast
  from c3 h3 have r3: "split_uri (init (str ''a?b''))
       = Inr \<lparr>uri_content = str ''a?b'', path = str ''a'', fragment = [],
              query = str ''b'', query_params = [], iter = 0\<rparr>"
    unfolding e3 by blast
  from c4 h4 have r4: "split_uri (init (str ''a#b''))
       = Inr \<lparr>uri_content = str ''a#b'', path = str ''a'', fragment = str ''b'',
              query = [], query_params = [], iter = 0\<rparr>"
    unfolding e4 by blast
  from c5 h5 have r5: "percent_decode ascii (str ''/a%41'') = Inr (str ''/aA'')"
    unfolding e5 by blast
  from r1 r2 r3 r4 r5 show ?thesis
    by (intro conjI)
qed

text \<open>
  C3 (the code does not do what the claim says). The claim: every malformed input makes
  \<open>parse\<close> raise \<open>UriSyntaxError\<close> and never another exception. On the input \<open>%-1\<close>
  the escape is read by \<open>int('-1', 16)\<close>, which is \<open>-1\<close>, and \<open>chr(-1)\<close>, called
  outside the \<open>try\<close> of \<open>_decode\<close>, raises \<open>ValueError\<close>, which leaves \<open>parse\<close>.
\<close>

theorem C3_parse_raises_ValueError:
  "parse ascii (init (str ''%-1''))
     = Inl (ValueError, \<lparr>uri_content = str ''%-1'', path = str ''%-1'', fragment = [],
                          query = [], query_params = [], iter = 3\<rparr>)"
  by code_simp

text \<open>
  C4 (the code does not do what the claim says). The claim: a \<open>%\<close> followed by two
  characters that are not both hexadecimal digits makes \<open>parse\<close> fail with
  \<open>SyntaxError\<close>. \<open>int\<close> also accepts a sign or white space beside one digit: the input
  \<open>%+1\<close> parses, and its path is the character of code point 1.
\<close>

theorem C4_sign_accepted_as_hex_digit:
  "parse ascii (init (str ''%+1''))
     = Inr \<lparr>uri_content = str ''%+1'', path = [1], fragment = [],
            query = [], query_params = [], iter = 0\<rparr>"
  by code_simp

text \<open>
  C5 (the code does not do what the claim says). The claim: an unescaped reserved
  character other than \<open>/\<close> and \<open>:\<close> in the raw path makes \<open>parse\<close> fail with
  \<open>SyntaxError\<close>. On \<open>%-1&\<close> the path holds an unescaped \<open>&\<close>, and \<open>parse\<close> raises
  \<open>ValueError\<close> at the escape before it.
\<close>

theorem C5_reserved_in_path_ValueError:
  "parse ascii (init (str ''%-1&''))
     = Inl (ValueError, \<lparr>uri_content = str ''%-1&'', path = str ''%-1&'', fragment = [],
                          query = [], query_params = [], iter = 3\<rparr>)"
  by code_simp

text \<open>
  C6 (the code does not do what the claim says). The claim: a query token without
  exactly one \<open>=\<close> makes \<open>parse\<close> fail with \<open>SyntaxError\<close>. On \<open>?%-1=1&b\<close> the token
  \<open>b\<close> has none, and \<open>parse\<close> raises \<open>ValueError\<close> at the key of the token before it.
\<close>

theorem C6_bad_token_ValueError:
  "parse ascii (init (str ''?%-1=1&b''))
     = Inl (ValueError, \<lparr>uri_content = str ''?%-1=1&b'', path = [], fragment = [],
                          query = str ''%-1=1&b'', query_params = [], iter = 3\<rparr>)"
  by code_simp

text \<open>
  C7. After a successful parse of an input with a non-empty raw query, every token of
  the query has a decoded pair (key, value); with \<open>kvs\<close> the list of these pairs in the
  order of the tokens, the keys of \<open>query_params\<close> are the keys of \<open>kvs\<close> in the order of
  their first occurrence, each once, and the value of a key is the one of its last pair
  in \<open>kvs\<close> (\<open>map_of\<close> finds the first pair of a key, here in the reversed list).
\<close>

theorem C7_insertion_order_last_wins:
  assumes "parse U (init u) = Inr s" and "split_uri (init u) = Inr s0" and "query s0 \<noteq> []"
  shows "\<exists>kvs. map (token_pair U) (split_all (of_char CHR ''&'') (query s0)) = map Inr kvs
           \<and> map fst (get_query_params s) = first_occ (map fst kvs)
           \<and> distinct (map fst (get_query_params s))
           \<and> map_of (get_query_params s) = map_of (rev kvs)"
proof -
  from parse_Inr(3) [OF assms(1,2)] assms(3)
  have "tokens_result U (split_all 38 (query s0)) [] = Inr (get_query_params s)"
    by (auto simp: query_view_def split: if_splits sum.splits)
  from tokens_result_Inr [OF this] obtain kvs
    where kvs: "map (token_pair U) (split_all 38 (query s0)) = map Inr kvs"
      and d: "get_query_params s = assign_all [] kvs"
    by blast
  have "map fst (get_query_params s) = first_occ (map fst kvs)"
    unfolding d using map_fst_assign_all [of "[]" kvs] by simp
  moreover have "distinct (map fst (get_query_params s))"
    unfolding d by (rule distinct_assign_all) simp
  moreover have "map_of (get_query_params s) = map_of (rev kvs)"
    unfolding d by (simp add: map_of_assign_all)
  ultimately show ?thesis
    using kvs by auto
qed

theorem C7_witness:
  "parse ascii (init (str ''?a=1&b=2''))
     = Inr \<lparr>uri_content = str ''?a=1&b=2'', path = [], fragment = [], query = str ''a=1&b=2'',
            query_params = [(str ''a'', str ''1''), (str ''b'', str ''2'')], iter = 1\<rparr>
   \<and> (\<exists>kvs. map (token_pair ascii) (split_all (of_char CHR ''&'') (str ''a=1&b=2'')) = map Inr kvs
         \<and> map fst [(str ''a'', str ''1''), (str ''b'', str ''2'')] = first_occ (map fst kvs)
         \<and> distinct (map fst [(str ''a'', str ''1''), (str ''b'', str ''2'')])
         \<and> map_of [(str ''a'', str ''1''), (str ''b'', str ''2'')] = map_of (rev kvs))
   \<and> parse ascii (init (str ''?a=1&a=2''))
     = Inr \<lparr>uri_content = str ''?a=1&a=2'', path = [], fragment = [], query = str ''a=1&a=2'',
            query_params = [(str ''a'', str ''2'')], iter = 1\<rparr>
   \<and> (\<exists>kvs. map (token_pair ascii) (split_all (of_char CHR ''&'') (str ''a=1&a=2'')) = map Inr kvs
         \<and> map fst [(str ''a'', str ''2'')] = first_occ (map fst kvs)
         \<and> distinct (map fst [(str ''a'', str ''2'')])
         \<and> map_of [(str ''a'', str ''2'')] = map_of (rev kvs))"
proof -
  have p1: "parse ascii (init (str ''?a=1&b=2''))
     = Inr \<lparr>uri_content = str ''?a=1&b=2'', path = [], fragment = [], query = str ''a=1&b=2'',
            query_params = [(str ''a'', str ''1''), (str ''b'', str ''2'')], iter = 1\<rparr>"
    by code_simp
  have s1: "split_uri (init (str ''?a=1&b=2''))
     = Inr \<lparr>uri_content = str ''?a=1&b=2'', path = [], fragment = [], query = str ''a=1&b=2'',
            query_params = [], iter = 0\<rparr>"
    by code_simp
  have n1: "query \<lparr>uri_content = str ''?a=1&b=2'', path = [], fragment = [],
            query = str ''a=1&b=2'', query_params = [], iter = 0\<rparr> \<noteq> []"
    by code_simp
  have p2: "parse ascii (init (str ''?a=1&a=2''))
     = Inr \<lparr>uri_content = str ''?a=1&a=2'', path = [], fragment = [], query = str ''a=1&a=2'',
            query_params = [(str ''a'', str ''2'')], iter = 1\<rparr>"
    by code_simp
  have s2: "split_uri (init (str ''?a=1&a=2''))
     = Inr \<lparr>uri_content = str ''?a=1&a=2'', path = [], fragment = [], query = str ''a=1&a=2'',
            query_params = [], iter = 0\<rparr>"
    by code_simp
  have n2: "query \<lparr>uri_content = str ''?a=1&a=2'', path = [], fragment = [],
            query = str ''a=1&a=2'', query_params = [], iter = 0\<rparr> \<noteq> []"
    by code_simp
  from C7_insertion_order_last_wins [OF p1 s1 n1]
  have "\<exists>kvs. map (token_pair ascii) (split_all (of_char CHR ''&'') (str ''a=1&b=2'')) = map Inr kvs
         \<and> map fst [(str ''a'', str ''1''), (str ''b'', str ''2'')] = first_occ (map fst kvs)
         \<and> distinct (map fst [(str ''a'', str ''1''), (str ''b'', str ''2'')])
         \<and> map_of [(str ''a'', str ''1''), (str ''b'', str ''2'')] = map_of (rev kvs)"
    by (simp add: get_query_params_def)
  moreover from C7_insertion_order_last_wins [OF p2 s2 n2]
  have "\<exists>kvs. map (token_pair ascii) (split_all (of_char CHR ''&'') (str ''a=1&a=2'')) = map Inr kvs
         \<and> map fst [(str ''a'', str ''2'')] = first_occ (map fst kvs)
         \<and> distinct (map fst [(str ''a'', str ''2'')])
         \<and> map_of [(str ''a'', str ''2'')] = map_of (rev kvs)"
    by (simp add: get_query_params_def)
  ultimately show ?thesis
    using p1 p2 by simp
qed




text \<open>
  C9. For every byte value \<open>v\<close> (below 256), with \<open>a\<close> the hexadecimal digit of
  \<open>v div 16\<close> and \<open>b\<close> that of \<open>v mod 16\<close>, each in upper or in lower case: \<open>_decode\<close>
  of the two digits is the character of code point \<open>v\<close>, \<open>_decode_all\<close> of the escape
  \<open>%ab\<close> is the string of that one character, and \<open>parse\<close> of the escape succeeds with that
  string as the path.
\<close>

theorem C9_escape_round_trip:
  assumes "v < 256"
    and "a = hex_upper (v div 16) \<or> a = hex_lower (v div 16)"
    and "b = hex_upper (v mod 16) \<or> b = hex_lower (v mod 16)"
  shows "decode U [a, b] = Inr v
       \<and> percent_decode U [of_char CHR ''%'', a, b] = Inr [v]
       \<and> (\<exists>s. parse U (init [of_char CHR ''%'', a, b]) = Inr s \<and> get_path s = [v])"
proof -
  from assms(1) have hi: "v div 16 < 16" and lo: "v mod 16 < 16"
    by simp_all
  from assms(2) digit_value_hex [OF hi] have da: "digit_value a = Some (v div 16)"
    by auto
  from assms(3) digit_value_hex [OF lo] have db: "digit_value b = Some (v mod 16)"
    by auto
  have d: "decode U [a, b] = Inr v"
    using decode_two_digits [OF da db, of U] by simp
  have sc: "scan U bad [37, a, b] = Inr [v]" for bad
    by (simp add: d)
  have sc0: "scan U bad_fragment [] = Inr []"
    by simp
  from digit_value_range [OF da] digit_value_range [OF db]
  have "spec_split [37, a, b] = Some ([37, a, b], [], [])"
    by (auto simp: spec_split_def)
  then have "parse_view U [37, a, b] = Inr ([v], [], [])"
    by (simp add: parse_view_def sc sc0 query_view_def del: scan.simps)
  then have "view (parse U (init [37, a, b])) = Inr ([v], [], [])"
    by (simp add: parse_view_eq)
  from view_Inr_D [OF this] have "\<exists>s. parse U (init [37, a, b]) = Inr s \<and> get_path s = [v]"
    by blast
  with d sc [of bad_none] show ?thesis
    by (simp add: percent_decode_scan del: scan.simps)
qed

theorem C9_witness:
  "decode ascii (str ''2B'') = Inr (of_char CHR ''+'')
   \<and> percent_decode ascii (str ''%2b'') = Inr (str ''+'')"
proof -
  have v: "(43::nat) < 256"
    by simp
  have u: "str ''2B'' = [hex_upper (43 div 16), hex_upper (43 mod 16)]"
    by code_simp
  have l: "str ''%2b'' = [of_char CHR ''%'', hex_lower (43 div 16), hex_lower (43 mod 16)]"
    by code_simp
  have p: "(of_char CHR ''+'' :: nat) = 43" "str ''+'' = [43]"
    by code_simp+
  from C9_escape_round_trip [OF v, of "hex_upper (43 div 16)" "hex_upper (43 mod 16)" ascii]
  have "decode ascii (str ''2B'') = Inr (of_char CHR ''+'')"
    by (simp only: u p simp_thms)
  moreover
  from C9_escape_round_trip [OF v, of "hex_lower (43 div 16)" "hex_lower (43 mod 16)" ascii]
  have "percent_decode ascii (str ''%2b'') = Inr (str ''+'')"
    by (simp only: l p simp_thms)
  ultimately show ?thesis
    by simp
qed

text \<open>
  C10. Let \<open>u\<close> be an input on which \<open>parse\<close> succeeds, and \<open>u'\<close> an input with the same
  raw path and fragment whose raw query has the tokens of \<open>u\<close> and one more token \<open>tok\<close>,
  at any place among them: \<open>pre\<close> are the tokens before it and \<open>post\<close> the tokens after it
  (the query of \<open>u\<close> is empty when there are none). Let \<open>x\<close> be a string without
  reserved characters that \<open>_decode_all\<close> decodes to \<open>x'\<close>. When \<open>tok\<close> is \<open>=x\<close>, \<open>parse\<close>
  succeeds on \<open>u'\<close> with the same path and fragment, and its parameters are the
  dictionary after the assignments of the pairs of all tokens in their order, with the
  pair of the empty key and \<open>x'\<close> at the place of \<open>tok\<close>: the empty key is in the
  dictionary, and its value is \<open>x'\<close> unless a later token has the empty key too. When
  \<open>tok\<close> is \<open>x=\<close>, the same holds with the pair of the key \<open>x'\<close> and the empty string.
\<close>

theorem C10_empty_key_or_value:
  assumes "parse U (init u) = Inr s"
    and "split_uri (init u) = Inr s0"
    and "split_uri (init u') = Inr s0'"
    and "path s0' = path s0"
    and "fragment s0' = fragment s0"
    and "if pre @ post = [] then query s0 = []
         else query s0 \<noteq> [] \<and> split_all (of_char CHR ''&'') (query s0) = pre @ post"
    and "split_all (of_char CHR ''&'') (query s0') = pre @ tok # post"
    and "\<forall>c\<in>set x. c \<notin> set reserved_chars"
    and "percent_decode U x = Inr x'"
  shows "(tok = of_char CHR ''='' # x \<longrightarrow>
           (\<exists>s' kpre kpost. parse U (init u') = Inr s' \<and> get_path s' = get_path s
              \<and> get_fragment s' = get_fragment s
              \<and> map (token_pair U) pre = map Inr kpre
              \<and> map (token_pair U) post = map Inr kpost
              \<and> get_query_params s = assign_all [] (kpre @ kpost)
              \<and> get_query_params s' = assign_all [] (kpre @ ([], x') # kpost)
              \<and> [] \<in> set (map fst (get_query_params s'))
              \<and> ([] \<notin> set (map fst kpost) \<longrightarrow> map_of (get_query_params s') [] = Some x')))
       \<and> (tok = x @ [of_char CHR ''=''] \<longrightarrow>
           (\<exists>s' kpre kpost. parse U (init u') = Inr s' \<and> get_path s' = get_path s
              \<and> get_fragment s' = get_fragment s
              \<and> map (token_pair U) pre = map Inr kpre
              \<and> map (token_pair U) post = map Inr kpost
              \<and> get_query_params s = assign_all [] (kpre @ kpost)
              \<and> get_query_params s' = assign_all [] (kpre @ (x', []) # kpost)
              \<and> x' \<in> set (map fst (get_query_params s'))
              \<and> (x' \<notin> set (map fst kpost) \<longrightarrow> map_of (get_query_params s') x' = Some [])))"
proof (intro conjI impI)
  have e: "\<forall>c\<in>set ([] :: pystring). c \<notin> set reserved_chars"
    by simp
  have amp: "(of_char CHR ''&'' :: pychar) = 38"
    by simp
  from assms(6)
  have pp: "if pre @ post = [] then query s0 = []
            else query s0 \<noteq> [] \<and> split_all 38 (query s0) = pre @ post"
    by (simp only: amp)
  {
    assume "tok = of_char CHR ''='' # x"
    with assms(7) have q: "split_all 38 (query s0') = pre @ ([] @ 61 # x) # post"
      by simp
    from parse_insert_token [OF assms(1-5) pp q e assms(8) percent_decode_Nil assms(9)]
    show "\<exists>s' kpre kpost. parse U (init u') = Inr s' \<and> get_path s' = get_path s
              \<and> get_fragment s' = get_fragment s
              \<and> map (token_pair U) pre = map Inr kpre
              \<and> map (token_pair U) post = map Inr kpost
              \<and> get_query_params s = assign_all [] (kpre @ kpost)
              \<and> get_query_params s' = assign_all [] (kpre @ ([], x') # kpost)
              \<and> [] \<in> set (map fst (get_query_params s'))
              \<and> ([] \<notin> set (map fst kpost) \<longrightarrow> map_of (get_query_params s') [] = Some x')" .
  next
    assume "tok = x @ [of_char CHR ''='']"
    with assms(7) have q: "split_all 38 (query s0') = pre @ (x @ 61 # []) # post"
      by simp
    from parse_insert_token [OF assms(1-5) pp q assms(8) e assms(9) percent_decode_Nil]
    show "\<exists>s' kpre kpost. parse U (init u') = Inr s' \<and> get_path s' = get_path s
              \<and> get_fragment s' = get_fragment s
              \<and> map (token_pair U) pre = map Inr kpre
              \<and> map (token_pair U) post = map Inr kpost
              \<and> get_query_params s = assign_all [] (kpre @ kpost)
              \<and> get_query_params s' = assign_all [] (kpre @ (x', []) # kpost)
              \<and> x' \<in> set (map fst (get_query_params s'))
              \<and> (x' \<notin> set (map fst kpost) \<longrightarrow> map_of (get_query_params s') x' = Some [])" .
  }
qed

theorem C10_witness:
  "(\<exists>s'. parse ascii (init (str ''x?=v&a=1'')) = Inr s'
       \<and> get_query_params s' = [([], str ''v''), (str ''a'', str ''1'')])
   \<and> (\<exists>s'. parse ascii (init (str ''x?k=&a=1'')) = Inr s'
       \<and> get_query_params s' = [(str ''k'', []), (str ''a'', str ''1'')])"
proof -
  have p: "parse ascii (init (str ''x?a=1''))
     = Inr \<lparr>uri_content = str ''x?a=1'', path = str ''x'', fragment = [], query = str ''a=1'',
            query_params = [(str ''a'', str ''1'')], iter = 1\<rparr>"
    by code_simp
  have s0: "split_uri (init (str ''x?a=1''))
     = Inr \<lparr>uri_content = str ''x?a=1'', path = str ''x'', fragment = [], query = str ''a=1'',
            query_params = [], iter = 0\<rparr>"
    by code_simp
  have s1: "split_uri (init (str ''x?=v&a=1''))
     = Inr \<lparr>uri_content = str ''x?=v&a=1'', path = str ''x'', fragment = [],
            query = str ''=v&a=1'', query_params = [], iter = 0\<rparr>"
    by code_simp
  have s2: "split_uri (init (str ''x?k=&a=1''))
     = Inr \<lparr>uri_content = str ''x?k=&a=1'', path = str ''x'', fragment = [],
            query = str ''k=&a=1'', query_params = [], iter = 0\<rparr>"
    by code_simp
  have pa1: "path \<lparr>uri_content = str ''x?=v&a=1'', path = str ''x'', fragment = [],
            query = str ''=v&a=1'', query_params = [], iter = 0\<rparr>
      = path \<lparr>uri_content = str ''x?a=1'', path = str ''x'', fragment = [],
            query = str ''a=1'', query_params = [], iter = 0\<rparr>"
    by simp
  have fr1: "fragment \<lparr>uri_content = str ''x?=v&a=1'', path = str ''x'', fragment = [],
            query = str ''=v&a=1'', query_params = [], iter = 0\<rparr>
      = fragment \<lparr>uri_content = str ''x?a=1'', path = str ''x'', fragment = [],
            query = str ''a=1'', query_params = [], iter = 0\<rparr>"
    by simp
  have pa2: "path \<lparr>uri_content = str ''x?k=&a=1'', path = str ''x'', fragment = [],
            query = str ''k=&a=1'', query_params = [], iter = 0\<rparr>
      = path \<lparr>uri_content = str ''x?a=1'', path = str ''x'', fragment = [],
            query = str ''a=1'', query_params = [], iter = 0\<rparr>"
    by simp
  have fr2: "fragment \<lparr>uri_content = str ''x?k=&a=1'', path = str ''x'', fragment = [],
            query = str ''k=&a=1'', query_params = [], iter = 0\<rparr>
      = fragment \<lparr>uri_content = str ''x?a=1'', path = str ''x'', fragment = [],
            query = str ''a=1'', query_params = [], iter = 0\<rparr>"
    by simp
  have q0: "if [] @ [str ''a=1''] = []
      then query \<lparr>uri_content = str ''x?a=1'', path = str ''x'', fragment = [],
            query = str ''a=1'', query_params = [], iter = 0\<rparr> = []
      else query \<lparr>uri_content = str ''x?a=1'', path = str ''x'', fragment = [],
            query = str ''a=1'', query_params = [], iter = 0\<rparr> \<noteq> []
         \<and> split_all (of_char CHR ''&'')
             (query \<lparr>uri_content = str ''x?a=1'', path = str ''x'', fragment = [],
                query = str ''a=1'', query_params = [], iter = 0\<rparr>)
           = [] @ [str ''a=1'']"
    by code_simp
  have q1: "split_all (of_char CHR ''&'')
      (query \<lparr>uri_content = str ''x?=v&a=1'', path = str ''x'', fragment = [],
            query = str ''=v&a=1'', query_params = [], iter = 0\<rparr>)
      = [] @ (of_char CHR ''='' # str ''v'') # [str ''a=1'']"
    by code_simp
  have q2: "split_all (of_char CHR ''&'')
      (query \<lparr>uri_content = str ''x?k=&a=1'', path = str ''x'', fragment = [],
            query = str ''k=&a=1'', query_params = [], iter = 0\<rparr>)
      = [] @ (str ''k'' @ [of_char CHR ''='']) # [str ''a=1'']"
    by code_simp
  have x1: "\<forall>c\<in>set (str ''v''). c \<notin> set reserved_chars"
    by code_simp
  have x2: "\<forall>c\<in>set (str ''k''). c \<notin> set reserved_chars"
    by code_simp
  have d1: "percent_decode ascii (str ''v'') = Inr (str ''v'')"
    by code_simp
  have d2: "percent_decode ascii (str ''k'') = Inr (str ''k'')"
    by code_simp
  have tp: "token_pair ascii (str ''a=1'') = Inr (str ''a'', str ''1'')"
    by code_simp
  have e1: "assign_all [] ([] @ ([], str ''v'') # [(str ''a'', str ''1'')])
      = [([], str ''v''), (str ''a'', str ''1'')]"
    by code_simp
  have e2: "assign_all [] ([] @ (str ''k'', []) # [(str ''a'', str ''1'')])
      = [(str ''k'', []), (str ''a'', str ''1'')]"
    by code_simp
  from C10_empty_key_or_value [OF p s0 s1 pa1 fr1 q0 q1 x1 d1]
  obtain s' kpre kpost where r: "parse ascii (init (str ''x?=v&a=1'')) = Inr s'"
    "map (token_pair ascii) [] = map Inr kpre"
    "map (token_pair ascii) [str ''a=1''] = map Inr kpost"
    "get_query_params s' = assign_all [] (kpre @ ([], str ''v'') # kpost)"
    by blast
  from r(2) have "kpre = []"
    by simp
  moreover from r(3) tp have "kpost = [(str ''a'', str ''1'')]"
    by (cases kpost) auto
  ultimately have "get_query_params s' = [([], str ''v''), (str ''a'', str ''1'')]"
    using r(4) e1 by simp
  with r(1) have c1: "\<exists>s'. parse ascii (init (str ''x?=v&a=1'')) = Inr s'
       \<and> get_query_params s' = [([], str ''v''), (str ''a'', str ''1'')]"
    by blast
  from C10_empty_key_or_value [OF p s0 s2 pa2 fr2 q0 q2 x2 d2]
  obtain t' lpre lpost where l: "parse ascii (init (str ''x?k=&a=1'')) = Inr t'"
    "map (token_pair ascii) [] = map Inr lpre"
    "map (token_pair ascii) [str ''a=1''] = map Inr lpost"
    "get_query_params t' = assign_all [] (lpre @ (str ''k'', []) # lpost)"
    by blast
  from l(2) have "lpre = []"
    by simp
  moreover from l(3) tp have "lpost = [(str ''a'', str ''1'')]"
    by (cases lpost) auto
  ultimately have "get_query_params t' = [(str ''k'', []), (str ''a'', str ''1'')]"
    using l(4) e2 by simp
  with l(1) have c2: "\<exists>s'. parse ascii (init (str ''x?k=&a=1'')) = Inr s'
       \<and> get_query_params s' = [(str ''k'', []), (str ''a'', str ''1'')]"
    by blast
  from c1 c2 show ?thesis
    by (rule conjI)
qed

end
